theory Spec2Isabelle
  imports Main
begin

section \<open>Exceptions\<close>

text \<open>
  The exceptions that can leave the functions of \<^verbatim>\<open>allennlp/nn/initializers.py\<close>.
  \<open>ConfigurationError\<close> carries its message. \<open>ZeroDivisionError\<close> is what Python's
  \<^verbatim>\<open>%\<close> raises on a zero divisor. \<open>External\<close> stands for any exception raised
  by a collaborator outside the file (\<^verbatim>\<open>re.search\<close> on a malformed pattern, a
  \<^verbatim>\<open>torch.nn.init\<close> routine, a user-supplied initializer); it propagates
  unchanged.
\<close>

datatype error = ConfigurationError string | ZeroDivisionError | External string

section \<open>InitializerApplicator\<close>

text \<open>
  An initializer is a callable that mutates the tensor it is given in place. It may
  draw random numbers, so it reads and updates the state \<open>'w\<close> of the world outside the
  module (the random generator); it may raise. The model returns the tensor after the
  call, the world after the call, and the exception if one was raised.

  \<^verbatim>\<open>re.search(pattern, name)\<close> is a parameter \<open>search\<close> of the model: \<open>Inr True\<close>
  when it returns a match object, \<open>Inr False\<close> when it returns \<^verbatim>\<open>None\<close>, \<open>Inl e\<close>
  when it raises (the pattern is not a regular expression).
\<close>

type_synonym ('t, 'w) initializer = "'t \<Rightarrow> 'w \<Rightarrow> 't \<times> 'w \<times> error option"

type_synonym ('t, 'w) initializers = "(string \<times> ('t, 'w) initializer) list"

type_synonym re_search = "string \<Rightarrow> string \<Rightarrow> error + bool"

text \<open>
  \<^verbatim>\<open>self._initializers = initializers or []\<close>: the constructor's default \<^verbatim>\<open>None\<close>
  becomes the empty list.
\<close>

definition InitializerApplicator :: "('t, 'w) initializers option \<Rightarrow> ('t, 'w) initializers" where
  "InitializerApplicator initializers = (case initializers of None \<Rightarrow> [] | Some l \<Rightarrow> l)"

text \<open>
  The local state of \<^verbatim>\<open>__call__\<close>: the two sets it keeps, the lines
  \<^verbatim>\<open>"Initializing %s using %s intitializer"\<close> logged so far as pairs (name, regex), and
  the world.
\<close>

record 'w call_state =
  world :: 'w
  unused_regexes :: "string set"
  uninitialized_parameters :: "string set"
  info_log :: "(string \<times> string) list"

text \<open>
  What happened to one parameter: its tensor after the inner loop, the exception that
  left the inner loop if any, and two traces that the source does not keep but the
  properties below are about: the positions (in \<^verbatim>\<open>self._initializers\<close>) of the pairs whose
  regex was searched for in the parameter's name, and the positions of the pairs whose
  initializer was called on the parameter, both in the order of the events.
\<close>

record 't outcome =
  tensor_after :: 't
  exception :: "error option"
  tried :: "nat list"
  called :: "nat list"

text \<open>
  The inner loop
  \<^verbatim>\<open>for initializer_regex, initializer in self._initializers: ... break / else: ...\<close>
  for the parameter \<open>name\<close> with tensor \<open>t\<close>; \<open>i\<close> is the position of the head of the
  remaining list. An exception leaves the loop at once: the statements after the raising
  call (\<^verbatim>\<open>unused_regexes.discard\<close>) do not run.
\<close>

fun for_initializers ::
  "re_search \<Rightarrow> string \<Rightarrow> ('t, 'w) initializers \<Rightarrow> nat \<Rightarrow> 't \<Rightarrow> 'w call_state
     \<Rightarrow> 't outcome \<times> 'w call_state" where
  "for_initializers search name [] i t st =
     (\<lparr>tensor_after = t, exception = None, tried = [], called = []\<rparr>,
      st\<lparr>uninitialized_parameters := insert name (uninitialized_parameters st)\<rparr>)"
| "for_initializers search name ((initializer_regex, initializer) # rest) i t st =
     (case search initializer_regex name of
        Inl e \<Rightarrow> (\<lparr>tensor_after = t, exception = Some e, tried = [i], called = []\<rparr>, st)
      | Inr True \<Rightarrow>
          (case initializer t (world st) of
             (t', w', None) \<Rightarrow>
               (\<lparr>tensor_after = t', exception = None, tried = [i], called = [i]\<rparr>,
                st\<lparr>world := w',
                   info_log := info_log st @ [(name, initializer_regex)],
                   unused_regexes := unused_regexes st - {initializer_regex}\<rparr>)
           | (t', w', Some e) \<Rightarrow>
               (\<lparr>tensor_after = t', exception = Some e, tried = [i], called = [i]\<rparr>,
                st\<lparr>world := w',
                   info_log := info_log st @ [(name, initializer_regex)]\<rparr>))
      | Inr False \<Rightarrow>
          (case for_initializers search name rest (Suc i) t st of
             (out, st') \<Rightarrow> (out\<lparr>tried := i # tried out\<rparr>, st')))"

text \<open>
  The outer loop \<^verbatim>\<open>for name, parameter in module.named_parameters()\<close>. The module is
  the list of pairs that \<^verbatim>\<open>named_parameters\<close> yields, each parameter once with a tensor
  of its own. The loop returns the outcomes of the parameters it reached, in order; an
  exception ends it.
\<close>

fun for_named_parameters ::
  "re_search \<Rightarrow> ('t, 'w) initializers \<Rightarrow> (string \<times> 't) list \<Rightarrow> 'w call_state
     \<Rightarrow> (string \<times> 't outcome) list \<times> 'w call_state" where
  "for_named_parameters search initializers [] st = ([], st)"
| "for_named_parameters search initializers ((name, parameter) # rest) st =
     (case for_initializers search name initializers 0 parameter st of
        (out, st') \<Rightarrow>
          (case exception out of
             Some e \<Rightarrow> ([(name, out)], st')
           | None \<Rightarrow>
               (case for_named_parameters search initializers rest st' of
                  (outs, st'') \<Rightarrow> ((name, out) # outs, st''))))"

text \<open>
  \<open>applicator_call\<close> is \<^verbatim>\<open>InitializerApplicator.__call__\<close>, applied to the list
  \<^verbatim>\<open>self._initializers\<close> and a module. Its result is
  everything observable after the call: the module's named parameters (the tensors
  are mutated in place, so they keep what was written to them also when an exception
  ends the call), the world, the exception that left the call if any, the log, and the
  outcomes of the parameters that were reached. The function returns \<^verbatim>\<open>None\<close>, so
  there is no field for a returned value.

  The two final loops run over Python sets, whose iteration order is not specified: the
  warnings \<^verbatim>\<open>"Did not use initialization regex that was passed: %s"\<close> and the lines
  \<^verbatim>\<open>"   %s"\<close> are given as the sets of the strings logged, one line each. They are
  logged only when the loop over the parameters has ended without an exception. The
  two lines without arguments (\<^verbatim>\<open>"Initializing parameters"\<close> and
  \<^verbatim>\<open>"Done initializing parameters; ..."\<close>) carry nothing and are left out.
\<close>

record ('t, 'w) call_result =
  parameters :: "(string \<times> 't) list"
  world_after :: 'w
  raised :: "error option"
  initializing_log :: "(string \<times> string) list"
  unused_warnings :: "string set"
  default_log :: "string set"
  outcomes :: "(string \<times> 't outcome) list"

definition raised_in :: "(string \<times> 't outcome) list \<Rightarrow> error option" where
  "raised_in outs = (if outs = [] then None else exception (snd (last outs)))"

definition applicator_call ::
  "re_search \<Rightarrow> ('t, 'w) initializers \<Rightarrow> (string \<times> 't) list \<Rightarrow> 'w \<Rightarrow> ('t, 'w) call_result" where
  "applicator_call search initializers module w =
     (case for_named_parameters search initializers module
             \<lparr>world = w,
              unused_regexes = set (map fst initializers),
              uninitialized_parameters = {},
              info_log = []\<rparr> of
        (outs, st) \<Rightarrow>
          \<lparr>parameters = map (\<lambda>(name, out). (name, tensor_after out)) outs
                          @ drop (length outs) module,
           world_after = world st,
           raised = raised_in outs,
           initializing_log = info_log st,
           unused_warnings = (if raised_in outs = None then unused_regexes st else {}),
           default_log = (if raised_in outs = None then uninitialized_parameters st else {}),
           outcomes = outs\<rparr>)"

section \<open>block\_orthogonal\<close>

text \<open>
  A tensor is its shape (\<^verbatim>\<open>tensor.size()\<close>) and the value stored at each index tuple.
  An index tuple is valid when it has one coordinate per dimension, each below the
  size of its dimension.
\<close>

record 'a tensor =
  tensor_size :: "nat list"
  elems :: "nat list \<Rightarrow> 'a"

definition valid_index :: "nat list \<Rightarrow> nat list \<Rightarrow> bool" where
  "valid_index sizes idx = list_all2 (\<lambda>i n. i < n) idx sizes"

text \<open>
  The argument of \<^verbatim>\<open>block_orthogonal\<close> is a \<^verbatim>\<open>Variable\<close> wrapping a tensor
  (\<^verbatim>\<open>tensor.data\<close>) or a plain tensor.
\<close>

datatype 'a tensor_arg = Variable "'a tensor" | Tensor "'a tensor"

text \<open>
  Python's \<^verbatim>\<open>a % b\<close> on integers raises \<^verbatim>\<open>ZeroDivisionError\<close> when \<open>b\<close> is zero;
  otherwise the result has the sign of \<open>b\<close>, as \<open>mod\<close> on \<open>int\<close> has.
\<close>

definition py_mod :: "int \<Rightarrow> int \<Rightarrow> error + int" where
  "py_mod a b = (if b = 0 then Inl ZeroDivisionError else Inr (a mod b))"

text \<open>
  The list comprehension \<^verbatim>\<open>[a % b != 0 for a, b in zip(sizes, split_sizes)]\<close>. It is
  a list, not a generator: every pair is evaluated before \<^verbatim>\<open>any\<close> looks at the
  result, so a zero split size raises wherever it stands.
\<close>

fun not_divisible :: "(int \<times> int) list \<Rightarrow> error + bool list" where
  "not_divisible [] = Inr []"
| "not_divisible ((a, b) # rest) =
     (case py_mod a b of
        Inl e \<Rightarrow> Inl e
      | Inr r \<Rightarrow>
          (case not_divisible rest of
             Inl e \<Rightarrow> Inl e
           | Inr bs \<Rightarrow> Inr ((r \<noteq> 0) # bs)))"

definition any :: "bool list \<Rightarrow> bool" where
  "any bs = list_ex (\<lambda>b. b) bs"

text \<open>
  \<^verbatim>\<open>str\<close> of an integer and of a list of integers, as \<^verbatim>\<open>"{}".format\<close> prints them:
  \<^verbatim>\<open>[3, 4]\<close>.
\<close>

fun str_nat :: "nat \<Rightarrow> string" where
  "str_nat n =
     (if n < 10 then [''0123456789'' ! n]
      else str_nat (n div 10) @ [''0123456789'' ! (n mod 10)])"

declare str_nat.simps [simp del]

definition str_int :: "int \<Rightarrow> string" where
  "str_int i = (if i < 0 then CHR ''-'' # str_nat (nat (- i)) else str_nat (nat i))"

fun str_items :: "int list \<Rightarrow> string" where
  "str_items [] = []"
| "str_items [x] = str_int x"
| "str_items (x # y # rest) = str_int x @ '', '' @ str_items (y # rest)"

definition str_list :: "int list \<Rightarrow> string" where
  "str_list xs = ''['' @ str_items xs @ '']''"

definition divisibility_message :: "int list \<Rightarrow> int list \<Rightarrow> string" where
  "divisibility_message sizes split_sizes =
     ''tensor dimensions must be divisible by their respective split_sizes. Found size: ''
     @ str_list sizes @ '' and split_sizes: '' @ str_list split_sizes"

text \<open>
  \<^verbatim>\<open>list(range(start, stop, step))\<close>. For \<open>step = 0\<close> Python raises \<^verbatim>\<open>ValueError\<close>;
  \<^verbatim>\<open>block_orthogonal\<close> does not get there, because the modulo by that step has raised
  before, and the model gives the empty list.
\<close>

function py_range :: "int \<Rightarrow> int \<Rightarrow> int \<Rightarrow> int list" where
  "py_range start stop step =
     (if 0 < step \<and> start < stop then start # py_range (start + step) stop step
      else if step < 0 \<and> stop < start then start # py_range (start + step) stop step
      else [])"
  by pat_completeness auto
termination
  by (relation "measure (\<lambda>(start, stop, step).
        nat (if 0 < step then stop - start else start - stop))") auto

declare py_range.simps [simp del]

text \<open>
  \<^verbatim>\<open>indexes = [list(range(0, max_size, split)) for max_size, split in zip(sizes, split_sizes)]\<close>
\<close>

definition indexes :: "int list \<Rightarrow> int list \<Rightarrow> int list list" where
  "indexes sizes split_sizes =
     map (\<lambda>(max_size, split). py_range 0 max_size split) (zip sizes split_sizes)"

text \<open>
  \<^verbatim>\<open>itertools.product(*indexes)\<close>: the tuples in the order in which the rightmost
  element advances fastest.
\<close>

fun itertools_product :: "'a list list \<Rightarrow> 'a list list" where
  "itertools_product [] = [[]]"
| "itertools_product (xs # xss) =
     concat (map (\<lambda>x. map (\<lambda>rest. x # rest) (itertools_product xss)) xs)"

text \<open>
  \<^verbatim>\<open>block_slice = tuple([slice(start_index, start_index + step) for start_index, step in
  zip(block_start_indices, split_sizes)])\<close>; a slice is its pair (start, stop).
\<close>

definition block_slice :: "int list \<Rightarrow> int list \<Rightarrow> (int \<times> int) list" where
  "block_slice block_start_indices split_sizes =
     map (\<lambda>(start_index, step). (start_index, start_index + step))
       (zip block_start_indices split_sizes)"

text \<open>
  Indexing a tensor by a tuple of slices selects, in each dimension that has a slice,
  the coordinates from start up to but not including stop (and inside the tensor), and
  every coordinate in the dimensions after the last slice. The starts and stops that
  \<^verbatim>\<open>block_orthogonal\<close> builds are not negative, so Python's counting from the end does
  not arise.
\<close>

fun in_slices :: "(int \<times> int) list \<Rightarrow> nat list \<Rightarrow> bool" where
  "in_slices [] idx = True"
| "in_slices ((start, stop) # slices) [] = False"
| "in_slices ((start, stop) # slices) (i # idx) =
     (start \<le> int i \<and> int i < stop \<and> in_slices slices idx)"

definition in_block :: "nat list \<Rightarrow> (int \<times> int) list \<Rightarrow> nat list \<Rightarrow> bool" where
  "in_block sizes slices idx = (valid_index sizes idx \<and> in_slices slices idx)"

text \<open>
  \<open>to_block\<close> turns an index of the tensor that lies in the block into the index of the
  same element inside the block, \<open>from_block\<close> does the converse.
\<close>

fun to_block :: "(int \<times> int) list \<Rightarrow> nat list \<Rightarrow> nat list" where
  "to_block ((start, stop) # slices) (i # idx) = (i - nat start) # to_block slices idx"
| "to_block slices idx = idx"

fun from_block :: "(int \<times> int) list \<Rightarrow> nat list \<Rightarrow> nat list" where
  "from_block ((start, stop) # slices) (i # idx) = (nat start + i) # from_block slices idx"
| "from_block slices idx = idx"

fun block_size :: "(int \<times> int) list \<Rightarrow> nat list \<Rightarrow> nat list" where
  "block_size ((start, stop) # slices) (n # sizes) =
     nat (min stop (int n) - start) # block_size slices sizes"
| "block_size slices sizes = sizes"

text \<open>\<^verbatim>\<open>tensor[block_slice]\<close>\<close>

definition getitem :: "'a tensor \<Rightarrow> (int \<times> int) list \<Rightarrow> 'a tensor" where
  "getitem tensor slices =
     \<lparr>tensor_size = block_size slices (tensor_size tensor),
      elems = (\<lambda>idx. elems tensor (from_block slices idx))\<rparr>"

text \<open>
  \<^verbatim>\<open>tensor[block_slice] = block\<close>: the elements inside the block are overwritten, the
  others stay. The block assigned is the one \<^verbatim>\<open>torch.nn.init.orthogonal\<close> has filled
  in place and returned, so it has the shape of the slice.
\<close>

definition setitem :: "'a tensor \<Rightarrow> (int \<times> int) list \<Rightarrow> 'a tensor \<Rightarrow> 'a tensor" where
  "setitem tensor slices block =
     tensor\<lparr>elems := (\<lambda>idx. if in_block (tensor_size tensor) slices idx
                             then elems block (to_block slices idx)
                             else elems tensor idx)\<rparr>"

text \<open>
  \<^verbatim>\<open>torch.nn.init.orthogonal(block, gain=gain)\<close> is a parameter of the model. It draws
  random numbers, so it reads and updates the world \<open>'w\<close>; it returns the block filled,
  or raises (torch refuses tensors with fewer than two dimensions) before it writes.
\<close>

type_synonym ('a, 'g, 'w) orthogonal = "'a tensor \<Rightarrow> 'g \<Rightarrow> 'w \<Rightarrow> (error + 'a tensor) \<times> 'w"

text \<open>
  The loop \<^verbatim>\<open>for block_start_indices in itertools.product(*indexes)\<close>. The tensor is
  written in place: when \<^verbatim>\<open>orthogonal\<close> raises, the blocks written before stay
  written.
\<close>

fun for_blocks ::
  "('a, 'g, 'w) orthogonal \<Rightarrow> 'g \<Rightarrow> int list \<Rightarrow> int list list \<Rightarrow> 'a tensor \<Rightarrow> 'w
     \<Rightarrow> 'a tensor \<times> 'w \<times> error option" where
  "for_blocks orthogonal gain split_sizes [] tensor w = (tensor, w, None)"
| "for_blocks orthogonal gain split_sizes (block_start_indices # rest) tensor w =
     (case orthogonal (getitem tensor (block_slice block_start_indices split_sizes)) gain w of
        (Inl e, w') \<Rightarrow> (tensor, w', Some e)
      | (Inr block, w') \<Rightarrow>
          for_blocks orthogonal gain split_sizes rest
            (setitem tensor (block_slice block_start_indices split_sizes) block) w')"

text \<open>
  The body of \<^verbatim>\<open>block_orthogonal\<close> for a plain tensor: the tensor after the call, the
  world after the call, and the exception raised if any.
\<close>

definition block_orthogonal_tensor ::
  "('a, 'g, 'w) orthogonal \<Rightarrow> 'a tensor \<Rightarrow> int list \<Rightarrow> 'g \<Rightarrow> 'w
     \<Rightarrow> 'a tensor \<times> 'w \<times> error option" where
  "block_orthogonal_tensor orthogonal tensor split_sizes gain w =
     (let sizes = map int (tensor_size tensor) in
      case not_divisible (zip sizes split_sizes) of
        Inl e \<Rightarrow> (tensor, w, Some e)
      | Inr bs \<Rightarrow>
          if any bs
          then (tensor, w, Some (ConfigurationError (divisibility_message sizes split_sizes)))
          else for_blocks orthogonal gain split_sizes
                 (itertools_product (indexes sizes split_sizes)) tensor w)"

text \<open>
  \<^verbatim>\<open>block_orthogonal\<close>: a \<^verbatim>\<open>Variable\<close> is unwrapped and the function is called again on
  its data, which is a plain tensor. The effect is on the tensor; what the function
  returns (the \<^verbatim>\<open>Variable\<close> in the first case, \<^verbatim>\<open>None\<close> in the second) is left out.
\<close>

definition block_orthogonal ::
  "('a, 'g, 'w) orthogonal \<Rightarrow> 'a tensor_arg \<Rightarrow> int list \<Rightarrow> 'g \<Rightarrow> 'w
     \<Rightarrow> 'a tensor_arg \<times> 'w \<times> error option" where
  "block_orthogonal orthogonal tensor split_sizes gain w =
     (case tensor of
        Variable data \<Rightarrow>
          (case block_orthogonal_tensor orthogonal data split_sizes gain w of
             (data', w', e) \<Rightarrow> (Variable data', w', e))
      | Tensor t \<Rightarrow>
          (case block_orthogonal_tensor orthogonal t split_sizes gain w of
             (t', w', e) \<Rightarrow> (Tensor t', w', e)))"

text \<open>
  The blocks of the loop that contain a given index of the tensor, each named by its
  tuple of start offsets, in the order of the loop.
\<close>

definition blocks_containing :: "nat list \<Rightarrow> int list \<Rightarrow> nat list \<Rightarrow> int list list" where
  "blocks_containing sizes split_sizes idx =
     filter (\<lambda>block_start_indices.
               in_block sizes (block_slice block_start_indices split_sizes) idx)
       (itertools_product (indexes (map int sizes) split_sizes))"

section \<open>The registry of initializers\<close>

text \<open>
  The numeric routines that the registry wraps: eleven functions of
  \<^verbatim>\<open>torch.nn.init\<close> and \<^verbatim>\<open>block_orthogonal\<close> of this file.
\<close>

datatype routine =
    torch_normal | torch_uniform | torch_orthogonal | torch_constant | torch_dirac
  | torch_xavier_normal | torch_xavier_uniform | torch_kaiming_normal
  | torch_kaiming_uniform | torch_sparse | torch_eye | block_orthogonal_routine

text \<open>
  An object of the class \<^verbatim>\<open>Init\<close> that \<^verbatim>\<open>_initializer_wrapper\<close> builds: the attributes
  \<^verbatim>\<open>_init_function\<close> and \<^verbatim>\<open>_kwargs\<close>.
\<close>

record 'kw Init =
  init_function :: routine
  kwargs :: 'kw

text \<open>
  \<^verbatim>\<open>_initializer_wrapper(init_function)\<close> returns the class; the class is modelled by its
  constructor \<^verbatim>\<open>Init(**kwargs)\<close>.
\<close>

definition initializer_wrapper :: "routine \<Rightarrow> 'kw \<Rightarrow> 'kw Init" where
  "initializer_wrapper f kw = \<lparr>init_function = f, kwargs = kw\<rparr>"

text \<open>
  \<^verbatim>\<open>Init.__call__\<close>: \<^verbatim>\<open>self._init_function(tensor, **self._kwargs)\<close>. What a routine does
  when it is called on a tensor with keyword arguments is the parameter \<open>call\<close>.
\<close>

definition Init_call ::
  "(routine \<Rightarrow> 't \<Rightarrow> 'kw \<Rightarrow> 'w \<Rightarrow> 't \<times> 'w \<times> error option) \<Rightarrow> 'kw Init \<Rightarrow> ('t, 'w) initializer"
  where "Init_call call self tensor = call (init_function self) tensor (kwargs self)"

text \<open>
  A configuration value is a string or something else; keyword arguments and the
  structured form of \<^verbatim>\<open>Params\<close> are dictionaries from names to values, kept as
  association lists. The argument of \<^verbatim>\<open>from_params\<close> is a bare string or such a
  dictionary.
\<close>

datatype 'v param_value = StrValue string | OtherValue 'v

type_synonym 'v dict = "(string \<times> 'v param_value) list"

datatype 'v params = Str string | Params "'v dict"

text \<open>\<^verbatim>\<open>Init.from_params\<close>: \<^verbatim>\<open>cls(**params.as_dict())\<close>\<close>

definition Init_from_params :: "('v dict \<Rightarrow> 'v dict Init) \<Rightarrow> 'v dict \<Rightarrow> 'v dict Init" where
  "Init_from_params cls params = cls params"

text \<open>\<^verbatim>\<open>Registrable._registry[Initializer]\<close>, in the order of the source.\<close>

definition registry :: "(string \<times> ('kw \<Rightarrow> 'kw Init)) list" where
  "registry =
     [(''normal'', initializer_wrapper torch_normal),
      (''uniform'', initializer_wrapper torch_uniform),
      (''orthogonal'', initializer_wrapper torch_orthogonal),
      (''constant'', initializer_wrapper torch_constant),
      (''dirac'', initializer_wrapper torch_dirac),
      (''xavier_normal'', initializer_wrapper torch_xavier_normal),
      (''xavier_uniform'', initializer_wrapper torch_xavier_uniform),
      (''kaiming_normal'', initializer_wrapper torch_kaiming_normal),
      (''kaiming_uniform'', initializer_wrapper torch_kaiming_uniform),
      (''sparse'', initializer_wrapper torch_sparse),
      (''eye'', initializer_wrapper torch_eye),
      (''block_orthogonal'', initializer_wrapper block_orthogonal_routine)]"

text \<open>
  Modelled from the spec: \<^verbatim>\<open>Registrable.by_name\<close>, defined in \<^verbatim>\<open>allennlp.common\<close> and
  not in this file. The spec: construction fails with a configuration error if the name
  is not registered. The registry is an argument, because other names may be registered
  by other modules. The spec does not give the text of the message.
\<close>

definition by_name :: "(string \<times> 'c) list \<Rightarrow> string \<Rightarrow> error + 'c" where
  "by_name reg name =
     (case map_of reg name of
        None \<Rightarrow> Inl (ConfigurationError (name @ '' is not a registered name for Initializer''))
      | Some cls \<Rightarrow> Inr cls)"

text \<open>
  Modelled from the spec: \<^verbatim>\<open>Registrable.list_available\<close>, defined in
  \<^verbatim>\<open>allennlp.common\<close>: the registered names.
\<close>

definition list_available :: "(string \<times> 'c) list \<Rightarrow> string list" where
  "list_available reg = map fst reg"

text \<open>
  Modelled from the spec: \<^verbatim>\<open>Params.pop_choice\<close>, defined in
  \<^verbatim>\<open>allennlp.common.params\<close>. The spec: the structured form has a required field
  \<^verbatim>\<open>type\<close>, the name of the initializer, and an unknown name is a configuration error.
  The field is removed from the dictionary and its value returned.
\<close>

definition pop_choice :: "'v dict \<Rightarrow> string \<Rightarrow> string list \<Rightarrow> error + (string \<times> 'v dict)" where
  "pop_choice d key choices =
     (case map_of d key of
        None \<Rightarrow> Inl (ConfigurationError (''key '' @ key @ '' is required''))
      | Some (OtherValue v) \<Rightarrow> Inl (ConfigurationError (key @ '' is not one of the choices''))
      | Some (StrValue choice) \<Rightarrow>
          if choice \<in> set choices
          then Inr (choice, filter (\<lambda>(k, v). k \<noteq> key) d)
          else Inl (ConfigurationError (choice @ '' is not one of the choices'')))"

text \<open>
  \<^verbatim>\<open>Initializer.from_params\<close>: a bare string names the class, which is constructed
  without keyword arguments; otherwise the field \<^verbatim>\<open>type\<close> names it and the remaining
  fields go to the class's \<^verbatim>\<open>from_params\<close>.
\<close>

fun Initializer_from_params ::
  "(string \<times> ('v dict \<Rightarrow> 'v dict Init)) list \<Rightarrow> 'v params \<Rightarrow> error + 'v dict Init" where
  "Initializer_from_params reg (Str name) =
     (case by_name reg name of
        Inl e \<Rightarrow> Inl e
      | Inr cls \<Rightarrow> Inr (cls []))"
| "Initializer_from_params reg (Params d) =
     (case pop_choice d ''type'' (list_available reg) of
        Inl e \<Rightarrow> Inl e
      | Inr (choice, rest) \<Rightarrow>
          (case by_name reg choice of
             Inl e \<Rightarrow> Inl e
           | Inr cls \<Rightarrow> Inr (Init_from_params cls rest)))"

section \<open>Concrete collaborators for the examples\<close>

text \<open>
  On a pattern in which no character is a regular-expression metacharacter,
  \<^verbatim>\<open>re.search(pattern, name)\<close> returns a match exactly when the pattern occurs in the
  name as a substring. \<open>literal_search\<close> is that search; the examples below use it with
  such patterns only.
\<close>

fun starts_with :: "string \<Rightarrow> string \<Rightarrow> bool" where
  "starts_with [] text = True"
| "starts_with (c # pattern) [] = False"
| "starts_with (c # pattern) (d # text) = (c = d \<and> starts_with pattern text)"

fun occurs_in :: "string \<Rightarrow> string \<Rightarrow> bool" where
  "occurs_in pattern [] = starts_with pattern []"
| "occurs_in pattern (d # text) = (starts_with pattern (d # text) \<or> occurs_in pattern text)"

definition literal_search :: re_search where
  "literal_search pattern name = Inr (occurs_in pattern name)"

text \<open>
  Two initializers with observable effects: \<open>fill v\<close> overwrites the tensor with \<open>v\<close>
  (as \<^verbatim>\<open>torch.nn.init.constant\<close> does); \<open>failing e\<close> raises \<open>e\<close> and leaves the
  tensor as it was.
\<close>

definition fill :: "'t \<Rightarrow> ('t, 'w) initializer" where
  "fill v = (\<lambda>t w. (v, w, None))"

definition failing :: "error \<Rightarrow> ('t, 'w) initializer" where
  "failing e = (\<lambda>t w. (t, w, Some e))"

text \<open>
  A tensor of the given shape filled with zeros, and a stand-in for
  \<^verbatim>\<open>torch.nn.init.orthogonal\<close> that returns the block as it got it.
\<close>

definition zeros :: "nat list \<Rightarrow> int tensor" where
  "zeros sizes = \<lparr>tensor_size = sizes, elems = (\<lambda>idx. 0)\<rparr>"

definition keep_block :: "(int, unit, unit) orthogonal" where
  "keep_block block gain w = (Inr block, w)"

text \<open>
  A stand-in for \<^verbatim>\<open>torch.nn.init.orthogonal\<close> whose writes can be told apart: the world
  is a counter of calls, and the block is filled, at each index of the block, with a
  hundred times the counter plus the sum of the coordinates of the index.
\<close>

definition number_block :: "(int, unit, int) orthogonal" where
  "number_block block gain w =
     (Inr (block\<lparr>elems := (\<lambda>idx. 100 * w + int (sum_list idx))\<rparr>), w + 1)"

section \<open>Properties of the applicator\<close>

subsection \<open>The inner loop\<close>

lemma inner_no_match:
  "\<forall>p \<in> set inits. search (fst p) name = Inr False \<Longrightarrow>
   for_initializers search name inits i t st =
     (\<lparr>tensor_after = t, exception = None, tried = [i..<i + length inits], called = []\<rparr>,
      st\<lparr>uninitialized_parameters := insert name (uninitialized_parameters st)\<rparr>)"
proof (induction inits arbitrary: i)
  case Nil
  then show ?case by simp
next
  case (Cons p inits)
  obtain r f where p: "p = (r, f)" by (cases p)
  from Cons.prems p have "search r name = Inr False" by simp
  moreover from Cons.prems have "\<forall>p \<in> set inits. search (fst p) name = Inr False" by simp
  ultimately show ?case using Cons.IH [of "Suc i"] p
    by (simp del: upt_Suc add: upt_conv_Cons)
qed

lemma inner_first_match:
  assumes "n < length inits"
    and "search (fst (inits ! n)) name = Inr True"
    and "\<forall>j<n. search (fst (inits ! j)) name = Inr False"
  shows "for_initializers search name inits i t st =
     (case snd (inits ! n) t (world st) of
        (t', w', e) \<Rightarrow>
          (\<lparr>tensor_after = t', exception = e, tried = [i..<Suc (i + n)], called = [i + n]\<rparr>,
           st\<lparr>world := w',
              info_log := info_log st @ [(name, fst (inits ! n))],
              unused_regexes :=
                (if e = None then unused_regexes st - {fst (inits ! n)} else unused_regexes st)\<rparr>))"
  using assms
proof (induction inits arbitrary: i n)
  case Nil
  then show ?case by simp
next
  case (Cons p inits)
  obtain r f where p: "p = (r, f)" by (cases p)
  show ?case
  proof (cases n)
    case 0
    with Cons.prems p have "search r name = Inr True" by simp
    with 0 p show ?thesis
      by (auto split: prod.splits option.splits)
  next
    case (Suc m)
    from Cons.prems Suc have m: "m < length inits" "search (fst (inits ! m)) name = Inr True"
      by simp_all
    from Cons.prems(3) Suc have "\<forall>j<m. search (fst (inits ! j)) name = Inr False"
      by auto
    note IH = Cons.IH [OF m this, of "Suc i"]
    from Cons.prems(3) Suc p have "search r name = Inr False" by auto
    with IH p Suc show ?thesis
      by (auto split: prod.splits option.splits simp del: upt_Suc simp add: upt_conv_Cons)
  qed
qed


lemma inner_search_raises:
  assumes "n < length inits"
    and "search (fst (inits ! n)) name = Inl e"
    and "\<forall>j<n. search (fst (inits ! j)) name = Inr False"
  shows "for_initializers search name inits i t st =
     (\<lparr>tensor_after = t, exception = Some e, tried = [i..<Suc (i + n)], called = []\<rparr>, st)"
  using assms
proof (induction inits arbitrary: i n)
  case Nil
  then show ?case by simp
next
  case (Cons p inits)
  obtain r f where p: "p = (r, f)" by (cases p)
  show ?case
  proof (cases n)
    case 0
    with Cons.prems p have "search r name = Inl e" by simp
    with 0 p show ?thesis by simp
  next
    case (Suc m)
    from Cons.prems Suc have m: "m < length inits" "search (fst (inits ! m)) name = Inl e"
      by simp_all
    from Cons.prems(3) Suc have "\<forall>j<m. search (fst (inits ! j)) name = Inr False"
      by auto
    note IH = Cons.IH [OF m this, of "Suc i"]
    from Cons.prems(3) Suc p have "search r name = Inr False" by auto
    with IH p Suc show ?thesis
      by (simp del: upt_Suc add: upt_conv_Cons)
  qed
qed

lemma scan_cases:
  "(\<forall>p \<in> set inits. search (fst p) name = Inr False)
   \<or> (\<exists>n<length inits. search (fst (inits ! n)) name = Inr True
         \<and> (\<forall>j<n. search (fst (inits ! j)) name = Inr False))
   \<or> (\<exists>n<length inits. \<exists>e. search (fst (inits ! n)) name = Inl e
         \<and> (\<forall>j<n. search (fst (inits ! j)) name = Inr False))"
proof (induction inits)
  case Nil
  then show ?case by simp
next
  case (Cons p inits)
  show ?case
  proof (cases "search (fst p) name")
    case (Inl e)
    then have "\<exists>n<length (p # inits). \<exists>e. search (fst ((p # inits) ! n)) name = Inl e
         \<and> (\<forall>j<n. search (fst ((p # inits) ! j)) name = Inr False)"
      by (intro exI [of _ 0]) simp
    then show ?thesis by blast
  next
    case (Inr b)
    show ?thesis
    proof (cases b)
      case True
      with Inr have "\<exists>n<length (p # inits). search (fst ((p # inits) ! n)) name = Inr True
         \<and> (\<forall>j<n. search (fst ((p # inits) ! j)) name = Inr False)"
        by (intro exI [of _ 0]) simp
      then show ?thesis by blast
    next
      case False
      with Inr have hd: "search (fst p) name = Inr False" by simp
      have step: "\<And>n j. \<forall>j<n. search (fst (inits ! j)) name = Inr False \<Longrightarrow>
          j < Suc n \<Longrightarrow> search (fst ((p # inits) ! j)) name = Inr False"
        using hd by (auto simp: nth_Cons split: nat.splits)
      from Cons.IH show ?thesis
      proof (elim disjE exE conjE)
        assume "\<forall>p \<in> set inits. search (fst p) name = Inr False"
        with hd show ?thesis by simp
      next
        fix n
        assume n: "n < length inits" "search (fst (inits ! n)) name = Inr True"
          "\<forall>j<n. search (fst (inits ! j)) name = Inr False"
        then have "Suc n < length (p # inits) \<and> search (fst ((p # inits) ! Suc n)) name = Inr True
          \<and> (\<forall>j<Suc n. search (fst ((p # inits) ! j)) name = Inr False)"
          using step by simp
        then show ?thesis by blast
      next
        fix n e
        assume n: "n < length inits" "search (fst (inits ! n)) name = Inl e"
          "\<forall>j<n. search (fst (inits ! j)) name = Inr False"
        then have "Suc n < length (p # inits) \<and> search (fst ((p # inits) ! Suc n)) name = Inl e
          \<and> (\<forall>j<Suc n. search (fst ((p # inits) ! j)) name = Inr False)"
          using step by simp
        then show ?thesis by blast
      qed
    qed
  qed
qed


lemma inner_cases [consumes 1, case_names no_match first_match search_raises]:
  assumes run: "for_initializers search name inits i t st = (out, st')"
  obtains
    (no_match) "\<forall>p \<in> set inits. search (fst p) name = Inr False"
      "out = \<lparr>tensor_after = t, exception = None, tried = [i..<i + length inits], called = []\<rparr>"
      "st' = st\<lparr>uninitialized_parameters := insert name (uninitialized_parameters st)\<rparr>"
  | (first_match) n t' w' e where "n < length inits"
      "search (fst (inits ! n)) name = Inr True"
      "\<forall>j<n. search (fst (inits ! j)) name = Inr False"
      "snd (inits ! n) t (world st) = (t', w', e)"
      "out = \<lparr>tensor_after = t', exception = e, tried = [i..<Suc (i + n)], called = [i + n]\<rparr>"
      "st' = st\<lparr>world := w', info_log := info_log st @ [(name, fst (inits ! n))],
                unused_regexes :=
                  (if e = None then unused_regexes st - {fst (inits ! n)}
                   else unused_regexes st)\<rparr>"
  | (search_raises) n e where "n < length inits"
      "search (fst (inits ! n)) name = Inl e"
      "\<forall>j<n. search (fst (inits ! j)) name = Inr False"
      "out = \<lparr>tensor_after = t, exception = Some e, tried = [i..<Suc (i + n)], called = []\<rparr>"
      "st' = st"
proof -
  from scan_cases [of inits search name] show thesis
  proof (elim disjE exE conjE)
    assume a: "\<forall>p \<in> set inits. search (fst p) name = Inr False"
    from inner_no_match [of inits search name i t st] a run show thesis
      by (intro no_match [OF a]) simp_all
  next
    fix n
    assume n: "n < length inits" "search (fst (inits ! n)) name = Inr True"
      "\<forall>j<n. search (fst (inits ! j)) name = Inr False"
    obtain t' w' e where call: "snd (inits ! n) t (world st) = (t', w', e)"
      by (cases "snd (inits ! n) t (world st)")
    from inner_first_match [of n inits search name i t st] n run call show thesis
      by (intro first_match [OF n call]) simp_all
  next
    fix n e
    assume n: "n < length inits" "search (fst (inits ! n)) name = Inl e"
      "\<forall>j<n. search (fst (inits ! j)) name = Inr False"
    from inner_search_raises [of n inits search name e i t st] n run show thesis
      by (intro search_raises [OF n]) simp_all
  qed
qed

lemma raised_in_Cons:
  "raised_in ((name, out) # outs) = (if outs = [] then exception out else raised_in outs)"
  by (simp add: raised_in_def)

lemma outer_structure:
  "for_named_parameters search inits module st = (outs, st') \<Longrightarrow>
     length outs \<le> length module
     \<and> (raised_in outs = None \<longrightarrow> length outs = length module)
     \<and> (\<forall>k<length outs. fst (outs ! k) = fst (module ! k)
           \<and> (\<exists>s s'. for_initializers search (fst (module ! k)) inits 0 (snd (module ! k)) s
                      = (snd (outs ! k), s')))"
proof (induction module arbitrary: st outs st')
  case Nil
  then show ?case by (simp add: raised_in_def)
next
  case (Cons p module)
  obtain name t where p: "p = (name, t)" by (cases p)
  obtain out s1 where inner: "for_initializers search name inits 0 t st = (out, s1)"
    by (cases "for_initializers search name inits 0 t st")
  show ?case
  proof (cases "exception out")
    case (Some e)
    with Cons.prems p inner have outs: "outs = [(name, out)]" by simp
    with Some p inner show ?thesis by (auto simp: raised_in_def)
  next
    case None
    obtain outs2 s2 where rest: "for_named_parameters search inits module s1 = (outs2, s2)"
      by (cases "for_named_parameters search inits module s1")
    with Cons.prems p inner None have outs: "outs = (name, out) # outs2" by simp
    note IH = Cons.IH [OF rest]
    have "raised_in outs = None \<longrightarrow> length outs = length (p # module)"
      using IH outs None by (auto simp: raised_in_Cons raised_in_def)
    moreover have "\<forall>k<length outs. fst (outs ! k) = fst ((p # module) ! k)
           \<and> (\<exists>s s'. for_initializers search (fst ((p # module) ! k)) inits 0
                        (snd ((p # module) ! k)) s = (snd (outs ! k), s'))"
    proof (intro allI impI)
      fix k assume k: "k < length outs"
      show "fst (outs ! k) = fst ((p # module) ! k)
           \<and> (\<exists>s s'. for_initializers search (fst ((p # module) ! k)) inits 0
                        (snd ((p # module) ! k)) s = (snd (outs ! k), s'))"
      proof (cases k)
        case 0
        with outs p inner show ?thesis by auto
      next
        case (Suc m)
        with k outs have "m < length outs2" by simp
        with IH Suc outs show ?thesis by simp
      qed
    qed
    moreover have "length outs \<le> length (p # module)" using IH outs by simp
    ultimately show ?thesis by blast
  qed
qed


lemma outer_Cons_cases [consumes 1, case_names stop continue]:
  assumes run: "for_named_parameters search inits ((name, t) # module) st = (outs, st')"
  obtains
    (stop) out e where "for_initializers search name inits 0 t st = (out, st')"
      "exception out = Some e" "outs = [(name, out)]"
  | (continue) out s1 outs2 where "for_initializers search name inits 0 t st = (out, s1)"
      "exception out = None" "for_named_parameters search inits module s1 = (outs2, st')"
      "outs = (name, out) # outs2"
proof -
  obtain out s1 where inner: "for_initializers search name inits 0 t st = (out, s1)"
    by (cases "for_initializers search name inits 0 t st")
  show thesis
  proof (cases "exception out")
    case (Some e)
    with run inner show thesis by (intro stop [of out e]) simp_all
  next
    case None
    obtain outs2 s2 where rest: "for_named_parameters search inits module s1 = (outs2, s2)"
      by (cases "for_named_parameters search inits module s1")
    with run inner None show thesis by (intro continue [of out s1 outs2]) simp_all
  qed
qed

lemma inner_unused_keeps:
  assumes "for_initializers search name inits i t st = (out, st')"
    and "r \<in> unused_regexes st" and "search r name \<noteq> Inr True"
  shows "r \<in> unused_regexes st'"
  using assms by (cases rule: inner_cases) auto

lemma inner_unused_subset:
  assumes "for_initializers search name inits i t st = (out, st')"
  shows "unused_regexes st' \<subseteq> unused_regexes st"
  using assms by (cases rule: inner_cases) auto

lemma inner_uninit_mono:
  assumes "for_initializers search name inits i t st = (out, st')"
  shows "uninitialized_parameters st \<subseteq> uninitialized_parameters st'"
  using assms by (cases rule: inner_cases) auto

lemma inner_uninit_unmatched:
  assumes "for_initializers search name inits i t st = (out, st')"
    and "\<forall>p \<in> set inits. search (fst p) name = Inr False"
  shows "name \<in> uninitialized_parameters st'"
  using assms inner_no_match [of inits search name i t st] by auto

lemma inner_discard:
  assumes "for_initializers search name inits i t st = (out, st')"
    and "exception out = None"
    and "n < length inits" "search (fst (inits ! n)) name = Inr True"
    and "\<forall>j<n. search (fst (inits ! j)) name = Inr False"
  shows "fst (inits ! n) \<notin> unused_regexes st'"
  using assms(1,2) inner_first_match [of n inits search name i t st] assms(3-5)
  by (auto split: prod.splits)

lemma outer_unused_keeps:
  "for_named_parameters search inits module st = (outs, st') \<Longrightarrow>
   r \<in> unused_regexes st \<Longrightarrow> \<forall>p \<in> set module. search r (fst p) \<noteq> Inr True \<Longrightarrow>
   r \<in> unused_regexes st'"
proof (induction module arbitrary: st outs st')
  case Nil
  then show ?case by simp
next
  case (Cons p module)
  obtain name t where p: "p = (name, t)" by (cases p)
  from Cons.prems(1) [unfolded p] show ?case
  proof (cases rule: outer_Cons_cases)
    case (stop out e)
    from inner_unused_keeps [OF stop(1) Cons.prems(2)] Cons.prems(3) p show ?thesis by simp
  next
    case (continue out s1 outs2)
    from inner_unused_keeps [OF continue(1) Cons.prems(2)] Cons.prems(3) p
    have "r \<in> unused_regexes s1" by simp
    from Cons.IH [OF continue(3) this] Cons.prems(3) show ?thesis by simp
  qed
qed

lemma outer_unused_subset:
  "for_named_parameters search inits module st = (outs, st') \<Longrightarrow>
   unused_regexes st' \<subseteq> unused_regexes st"
proof (induction module arbitrary: st outs st')
  case Nil
  then show ?case by simp
next
  case (Cons p module)
  obtain name t where p: "p = (name, t)" by (cases p)
  from Cons.prems(1) [unfolded p] show ?case
  proof (cases rule: outer_Cons_cases)
    case (stop out e)
    from inner_unused_subset [OF stop(1)] show ?thesis .
  next
    case (continue out s1 outs2)
    from inner_unused_subset [OF continue(1)] Cons.IH [OF continue(3)]
    show ?thesis by blast
  qed
qed

lemma outer_uninit_mono:
  "for_named_parameters search inits module st = (outs, st') \<Longrightarrow>
   uninitialized_parameters st \<subseteq> uninitialized_parameters st'"
proof (induction module arbitrary: st outs st')
  case Nil
  then show ?case by simp
next
  case (Cons p module)
  obtain name t where p: "p = (name, t)" by (cases p)
  from Cons.prems(1) [unfolded p] show ?case
  proof (cases rule: outer_Cons_cases)
    case (stop out e)
    from inner_uninit_mono [OF stop(1)] show ?thesis .
  next
    case (continue out s1 outs2)
    from inner_uninit_mono [OF continue(1)] Cons.IH [OF continue(3)]
    show ?thesis by blast
  qed
qed

lemma outer_uninit_unmatched:
  "for_named_parameters search inits module st = (outs, st') \<Longrightarrow>
   raised_in outs = None \<Longrightarrow> name \<in> fst ` set module \<Longrightarrow>
   \<forall>p \<in> set inits. search (fst p) name = Inr False \<Longrightarrow>
   name \<in> uninitialized_parameters st'"
proof (induction module arbitrary: st outs st')
  case Nil
  then show ?case by simp
next
  case (Cons p module)
  obtain nm t where p: "p = (nm, t)" by (cases p)
  from Cons.prems(1) [unfolded p] show ?case
  proof (cases rule: outer_Cons_cases)
    case (stop out e)
    with Cons.prems(2) show ?thesis by (simp add: raised_in_def)
  next
    case (continue out s1 outs2)
    from Cons.prems(2) continue have r2: "raised_in outs2 = None"
      by (simp add: raised_in_Cons raised_in_def split: if_splits)
    show ?thesis
    proof (cases "name = nm")
      case True
      from inner_uninit_unmatched [OF continue(1)] Cons.prems(4) True
      have "name \<in> uninitialized_parameters s1" by simp
      with outer_uninit_mono [OF continue(3)] show ?thesis by blast
    next
      case False
      with Cons.prems(3) p have "name \<in> fst ` set module" by auto
      from Cons.IH [OF continue(3) r2 this Cons.prems(4)] show ?thesis .
    qed
  qed
qed

lemma outer_discard:
  "for_named_parameters search inits module st = (outs, st') \<Longrightarrow>
   raised_in outs = None \<Longrightarrow> name \<in> fst ` set module \<Longrightarrow>
   n < length inits \<Longrightarrow> search (fst (inits ! n)) name = Inr True \<Longrightarrow>
   \<forall>j<n. search (fst (inits ! j)) name = Inr False \<Longrightarrow>
   fst (inits ! n) \<notin> unused_regexes st'"
proof (induction module arbitrary: st outs st')
  case Nil
  then show ?case by simp
next
  case (Cons p module)
  obtain nm t where p: "p = (nm, t)" by (cases p)
  from Cons.prems(1) [unfolded p] show ?case
  proof (cases rule: outer_Cons_cases)
    case (stop out e)
    with Cons.prems(2) show ?thesis by (simp add: raised_in_def)
  next
    case (continue out s1 outs2)
    from Cons.prems(2) continue have r2: "raised_in outs2 = None"
      by (simp add: raised_in_Cons raised_in_def split: if_splits)
    show ?thesis
    proof (cases "name = nm")
      case True
      from inner_discard [OF continue(1,2) Cons.prems(4)] Cons.prems(5,6) True
      have "fst (inits ! n) \<notin> unused_regexes s1" by simp
      with outer_unused_subset [OF continue(3)] show ?thesis by blast
    next
      case False
      with Cons.prems(3) p have "name \<in> fst ` set module" by auto
      from Cons.IH [OF continue(3) r2 this Cons.prems(4-6)] show ?thesis .
    qed
  qed
qed


lemma applicator_call_run:
  obtains outs st' where
    "for_named_parameters search inits module
       \<lparr>world = w, unused_regexes = set (map fst inits),
        uninitialized_parameters = {}, info_log = []\<rparr> = (outs, st')"
    "outcomes (applicator_call search inits module w) = outs"
    "raised (applicator_call search inits module w) = raised_in outs"
    "parameters (applicator_call search inits module w) =
       map (\<lambda>(name, out). (name, tensor_after out)) outs @ drop (length outs) module"
    "unused_warnings (applicator_call search inits module w) =
       (if raised_in outs = None then unused_regexes st' else {})"
    "default_log (applicator_call search inits module w) =
       (if raised_in outs = None then uninitialized_parameters st' else {})"
proof -
  obtain outs st' where run: "for_named_parameters search inits module
       \<lparr>world = w, unused_regexes = set (map fst inits),
        uninitialized_parameters = {}, info_log = []\<rparr> = (outs, st')"
    by (cases "for_named_parameters search inits module
       \<lparr>world = w, unused_regexes = set (map fst inits),
        uninitialized_parameters = {}, info_log = []\<rparr>")
  show thesis
    by (rule that [OF run]; unfold applicator_call_def run; simp)
qed

lemma parameters_nth_reached:
  assumes "k < length outs"
  shows "(map (\<lambda>(name, out). (name, tensor_after out)) outs @ rest) ! k
           = (fst (outs ! k), tensor_after (snd (outs ! k)))"
  using assms by (simp add: nth_append case_prod_beta)

lemma parameters_nth_unreached:
  assumes "length outs \<le> k" "k < length module"
  shows "(map (\<lambda>(name, out). (name, tensor_after out)) outs @ drop (length outs) module) ! k
           = module ! k"
  using assms by (simp add: nth_append)

lemma inner_called_once:
  assumes "for_initializers search name inits i t st = (out, st')"
  shows "length (called out) \<le> 1"
  using assms by (cases rule: inner_cases) auto

lemma inner_called_first_match:
  assumes "for_initializers search name inits 0 t st = (out, st')"
    and "j \<in> set (called out)"
  shows "j < length inits \<and> search (fst (inits ! j)) name = Inr True
     \<and> (\<forall>m<j. search (fst (inits ! m)) name = Inr False)"
  using assms by (cases rule: inner_cases) auto

lemma inner_changed_matched:
  assumes "for_initializers search name inits i t st = (out, st')"
    and "tensor_after out \<noteq> t"
  shows "\<exists>n<length inits. search (fst (inits ! n)) name = Inr True"
  using assms by (cases rule: inner_cases) auto

lemma inner_exception_origin:
  assumes "for_initializers search name inits i t st = (out, st')"
    and "exception out = Some e"
  shows "\<exists>q \<in> set inits. search (fst q) name = Inl e
           \<or> (search (fst q) name = Inr True \<and> (\<exists>w0 t1 w1. snd q t w0 = (t1, w1, Some e)))"
  using assms
proof (cases rule: inner_cases)
  case no_match
  with assms(2) show ?thesis by simp
next
  case (first_match n t' w' e')
  with assms(2) have "snd (inits ! n) t (world st) = (t', w', Some e)" by simp
  with first_match(1,2) show ?thesis
    by (intro bexI [of _ "inits ! n"]) auto
next
  case (search_raises n e')
  with assms(2) have "search (fst (inits ! n)) name = Inl e" by simp
  with search_raises(1) show ?thesis
    by (intro bexI [of _ "inits ! n"]) auto
qed

lemma outer_names:
  assumes "for_named_parameters search inits module st = (outs, st')"
  shows "map fst outs = take (length outs) (map fst module)"
proof (rule nth_equalityI)
  from outer_structure [OF assms] show "length (map fst outs) = length (take (length outs) (map fst module))"
    by simp
next
  fix k assume "k < length (map fst outs)"
  with outer_structure [OF assms] show "map fst outs ! k = take (length outs) (map fst module) ! k"
    by simp
qed

lemma parameters_names:
  assumes "map fst outs = take (length outs) (map fst module)"
  shows "map fst (map (\<lambda>(name, out). (name, tensor_after out)) outs @ drop (length outs) module)
           = map fst module"
proof -
  have "map fst (map (\<lambda>(name, out). (name, tensor_after out)) outs) = map fst outs"
    by (simp add: case_prod_beta)
  with assms show ?thesis by (simp add: drop_map [symmetric])
qed

subsection \<open>First match wins\<close>

text \<open>
  Claim C1. For every applicator, every module and every parameter that the call
  reaches (every parameter of the module, when no exception ends the call): if the pair
  at position \<open>i\<close> is the first whose regex is found in the parameter's name, then the
  regexes were searched in list order up to position \<open>i\<close> and no further, the only
  initializer called on the parameter is the one of pair \<open>i\<close>, and the parameter holds
  what that initializer left in its tensor. The search is \<^verbatim>\<open>re.search\<close>: in the example
  the pattern \<^verbatim>\<open>weight\<close> is found inside \<^verbatim>\<open>layer.weight\<close>, and the later pattern
  \<^verbatim>\<open>layer\<close>, which is also found there, is never tried.
\<close>

theorem first_match_wins:
  assumes "k < length (outcomes (applicator_call search inits module w))"
    and "i < length inits"
    and "search (fst (inits ! i)) (fst (module ! k)) = Inr True"
    and "\<forall>j<i. search (fst (inits ! j)) (fst (module ! k)) = Inr False"
  shows "tried (snd (outcomes (applicator_call search inits module w) ! k)) = [0..<Suc i]
     \<and> called (snd (outcomes (applicator_call search inits module w) ! k)) = [i]
     \<and> fst (parameters (applicator_call search inits module w) ! k) = fst (module ! k)
     \<and> (\<exists>w0 w1. snd (inits ! i) (snd (module ! k)) w0 =
           (snd (parameters (applicator_call search inits module w) ! k), w1,
            exception (snd (outcomes (applicator_call search inits module w) ! k))))
     \<and> (raised (applicator_call search inits module w) = None \<longrightarrow>
          length (outcomes (applicator_call search inits module w)) = length module)"
proof -
  obtain outs st' where run: "for_named_parameters search inits module
       \<lparr>world = w, unused_regexes = set (map fst inits),
        uninitialized_parameters = {}, info_log = []\<rparr> = (outs, st')"
    and res: "outcomes (applicator_call search inits module w) = outs"
      "raised (applicator_call search inits module w) = raised_in outs"
      "parameters (applicator_call search inits module w) =
         map (\<lambda>(name, out). (name, tensor_after out)) outs @ drop (length outs) module"
    by (rule applicator_call_run)
  from assms(1) res have k: "k < length outs" by simp
  note str = outer_structure [OF run]
  from str k obtain s s' where name: "fst (outs ! k) = fst (module ! k)"
    and inner: "for_initializers search (fst (module ! k)) inits 0 (snd (module ! k)) s
                  = (snd (outs ! k), s')"
    by blast
  obtain t' w' e where call: "snd (inits ! i) (snd (module ! k)) (world s) = (t', w', e)"
    by (cases "snd (inits ! i) (snd (module ! k)) (world s)")
  from inner inner_first_match [of i inits search "fst (module ! k)" 0 "snd (module ! k)" s]
    assms(2-4) call
  have out: "snd (outs ! k) =
      \<lparr>tensor_after = t', exception = e, tried = [0..<Suc i], called = [i]\<rparr>"
    by simp
  have par: "parameters (applicator_call search inits module w) ! k
               = (fst (module ! k), t')"
    using parameters_nth_reached [OF k] res(3) name out by simp
  have "\<exists>w0 w1. snd (inits ! i) (snd (module ! k)) w0 = (t', w1, e)"
    using call by blast
  with out par res str show ?thesis by simp
qed

theorem first_match_wins_witness:
  "literal_search ''weight'' ''layer.weight'' = Inr True
   \<and> literal_search ''layer'' ''layer.weight'' = Inr True
   \<and> tried (snd (outcomes (applicator_call literal_search
          [(''bias'', fill 1), (''weight'', fill 2), (''layer'', fill 3)]
          [(''layer.weight'', 0 :: int), (''layer.bias'', 0)] ()) ! 0)) = [0, 1]
   \<and> called (snd (outcomes (applicator_call literal_search
          [(''bias'', fill 1), (''weight'', fill 2), (''layer'', fill 3)]
          [(''layer.weight'', 0 :: int), (''layer.bias'', 0)] ()) ! 0)) = [1]
   \<and> parameters (applicator_call literal_search
          [(''bias'', fill 1), (''weight'', fill 2), (''layer'', fill 3)]
          [(''layer.weight'', 0 :: int), (''layer.bias'', 0)] ())
        = [(''layer.weight'', 2), (''layer.bias'', 1)]"
proof -
  have k: "0 < length (outcomes (applicator_call literal_search
          [(''bias'', fill 1), (''weight'', fill 2), (''layer'', fill 3)]
          [(''layer.weight'', 0 :: int), (''layer.bias'', 0)] ()))"
    by (simp add: applicator_call_def raised_in_def literal_search_def fill_def)
  have i: "1 < length [(''bias'', fill 1 :: (int, unit) initializer), (''weight'', fill 2),
                        (''layer'', fill 3)]"
    by simp
  have m: "literal_search
             (fst ([(''bias'', fill 1 :: (int, unit) initializer), (''weight'', fill 2),
                    (''layer'', fill 3)] ! 1))
             (fst ([(''layer.weight'', 0 :: int), (''layer.bias'', 0)] ! 0)) = Inr True"
    by (simp add: literal_search_def)
  have n: "\<forall>j<1. literal_search
             (fst ([(''bias'', fill 1 :: (int, unit) initializer), (''weight'', fill 2),
                    (''layer'', fill 3)] ! j))
             (fst ([(''layer.weight'', 0 :: int), (''layer.bias'', 0)] ! 0)) = Inr False"
    by (simp add: literal_search_def)
  from k i m n first_match_wins [where k = 0 and i = 1 and search = literal_search
      and inits = "[(''bias'', fill 1), (''weight'', fill 2), (''layer'', fill 3)]"
      and module = "[(''layer.weight'', 0 :: int), (''layer.bias'', 0)]" and w = "()"]
  show ?thesis
    by (simp add: applicator_call_def raised_in_def literal_search_def fill_def)
qed

subsection \<open>Unmatched parameters\<close>

text \<open>
  Claim C4. A parameter whose name matches none of the applicator's patterns holds after
  the call the tensor it held before, whether or not the call ended with an exception.
  Processing it raises nothing and calls no initializer, and when the call returns its
  name is among the names logged as using their default initialization.
\<close>

theorem unmatched_parameter_unchanged:
  assumes "k < length module"
    and "\<forall>p \<in> set inits. search (fst p) (fst (module ! k)) = Inr False"
  shows "parameters (applicator_call search inits module w) ! k = module ! k
     \<and> (k < length (outcomes (applicator_call search inits module w)) \<longrightarrow>
          exception (snd (outcomes (applicator_call search inits module w) ! k)) = None
          \<and> called (snd (outcomes (applicator_call search inits module w) ! k)) = [])
     \<and> (raised (applicator_call search inits module w) = None \<longrightarrow>
          fst (module ! k) \<in> default_log (applicator_call search inits module w))"
proof -
  obtain outs st' where run: "for_named_parameters search inits module
       \<lparr>world = w, unused_regexes = set (map fst inits),
        uninitialized_parameters = {}, info_log = []\<rparr> = (outs, st')"
    and res: "outcomes (applicator_call search inits module w) = outs"
      "raised (applicator_call search inits module w) = raised_in outs"
      "parameters (applicator_call search inits module w) =
         map (\<lambda>(name, out). (name, tensor_after out)) outs @ drop (length outs) module"
      "unused_warnings (applicator_call search inits module w) =
         (if raised_in outs = None then unused_regexes st' else {})"
      "default_log (applicator_call search inits module w) =
         (if raised_in outs = None then uninitialized_parameters st' else {})"
    by (rule applicator_call_run)
  note str = outer_structure [OF run]
  have reached: "exception (snd (outs ! k)) = None \<and> called (snd (outs ! k)) = []
      \<and> (fst (outs ! k), tensor_after (snd (outs ! k))) = module ! k" if k: "k < length outs"
  proof -
    from str k obtain s s' where name: "fst (outs ! k) = fst (module ! k)"
      and inner: "for_initializers search (fst (module ! k)) inits 0 (snd (module ! k)) s
                    = (snd (outs ! k), s')"
      by blast
    from inner inner_no_match [of inits search "fst (module ! k)" 0 "snd (module ! k)" s]
      assms(2)
    have "snd (outs ! k) = \<lparr>tensor_after = snd (module ! k), exception = None,
             tried = [0..<0 + length inits], called = []\<rparr>"
      by simp
    with name show ?thesis by (simp add: prod_eq_iff)
  qed
  have "parameters (applicator_call search inits module w) ! k = module ! k"
  proof (cases "k < length outs")
    case True
    with reached parameters_nth_reached [OF True] res(3) show ?thesis by simp
  next
    case False
    with parameters_nth_unreached [of outs k module] assms(1) res(3) show ?thesis by simp
  qed
  moreover have "raised_in outs = None \<longrightarrow> fst (module ! k) \<in> uninitialized_parameters st'"
  proof
    assume r: "raised_in outs = None"
    from assms(1) have "fst (module ! k) \<in> fst ` set module" by simp
    from outer_uninit_unmatched [OF run r this assms(2)]
    show "fst (module ! k) \<in> uninitialized_parameters st'" .
  qed
  ultimately show ?thesis using reached res by simp
qed

theorem unmatched_parameter_unchanged_witness:
  "parameters (applicator_call literal_search [(''weight'', fill 1)]
        [(''layer.weight'', 0 :: int), (''layer.bias'', 7)] ()) ! 1 = (''layer.bias'', 7)
   \<and> raised (applicator_call literal_search [(''weight'', fill 1)]
        [(''layer.weight'', 0 :: int), (''layer.bias'', 7)] ()) = None
   \<and> ''layer.bias'' \<in> default_log (applicator_call literal_search [(''weight'', fill 1)]
        [(''layer.weight'', 0 :: int), (''layer.bias'', 7)] ())"
proof -
  have k: "1 < length [(''layer.weight'', 0 :: int), (''layer.bias'', 7)]" by simp
  have u: "\<forall>p \<in> set [(''weight'', fill 1 :: (int, unit) initializer)].
             literal_search (fst p) (fst ([(''layer.weight'', 0 :: int), (''layer.bias'', 7)] ! 1))
               = Inr False"
    by (simp add: literal_search_def)
  from k u unmatched_parameter_unchanged [where k = 1 and search = literal_search
      and inits = "[(''weight'', fill 1)]"
      and module = "[(''layer.weight'', 0 :: int), (''layer.bias'', 7)]" and w = "()"]
  show ?thesis
    by (simp add: applicator_call_def raised_in_def literal_search_def fill_def)
qed

subsection \<open>At most one initializer per parameter\<close>

text \<open>
  Claim C5. In one call, at most one initializer is called on each parameter that is
  reached, however many patterns match its name; the outcomes are those of the module's
  parameters in order, one each. The module keeps its parameter names, and a parameter
  whose tensor differs after the call was reached and has a matching pattern: only
  matched parameters are mutated. The call returns \<^verbatim>\<open>None\<close>: the result of the model has
  no returned value.
\<close>

theorem initialized_at_most_once:
  "(\<forall>k<length (outcomes (applicator_call search inits module w)).
        length (called (snd (outcomes (applicator_call search inits module w) ! k))) \<le> 1)
   \<and> map fst (outcomes (applicator_call search inits module w))
        = take (length (outcomes (applicator_call search inits module w))) (map fst module)
   \<and> map fst (parameters (applicator_call search inits module w)) = map fst module
   \<and> (\<forall>k<length module.
         snd (parameters (applicator_call search inits module w) ! k) \<noteq> snd (module ! k) \<longrightarrow>
         k < length (outcomes (applicator_call search inits module w))
         \<and> (\<exists>i<length inits. search (fst (inits ! i)) (fst (module ! k)) = Inr True))"
proof -
  obtain outs st' where run: "for_named_parameters search inits module
       \<lparr>world = w, unused_regexes = set (map fst inits),
        uninitialized_parameters = {}, info_log = []\<rparr> = (outs, st')"
    and res: "outcomes (applicator_call search inits module w) = outs"
      "parameters (applicator_call search inits module w) =
         map (\<lambda>(name, out). (name, tensor_after out)) outs @ drop (length outs) module"
    by (rule applicator_call_run)
  note str = outer_structure [OF run]
  have once: "\<forall>k<length outs. length (called (snd (outs ! k))) \<le> 1"
  proof (intro allI impI)
    fix k assume "k < length outs"
    with str obtain s s' where
      "for_initializers search (fst (module ! k)) inits 0 (snd (module ! k)) s
         = (snd (outs ! k), s')"
      by blast
    then show "length (called (snd (outs ! k))) \<le> 1" by (rule inner_called_once)
  qed
  have names: "map fst outs = take (length outs) (map fst module)"
    by (rule outer_names [OF run])
  have changed: "k < length outs
         \<and> (\<exists>i<length inits. search (fst (inits ! i)) (fst (module ! k)) = Inr True)"
    if k: "k < length module"
      and neq: "snd ((map (\<lambda>(name, out). (name, tensor_after out)) outs
                       @ drop (length outs) module) ! k) \<noteq> snd (module ! k)" for k
  proof (cases "k < length outs")
    case True
    from str True obtain s s' where
      inner: "for_initializers search (fst (module ! k)) inits 0 (snd (module ! k)) s
                    = (snd (outs ! k), s')"
      by blast
    from neq parameters_nth_reached [OF True]
    have "tensor_after (snd (outs ! k)) \<noteq> snd (module ! k)" by simp
    from inner_changed_matched [OF inner this] True show ?thesis by simp
  next
    case False
    with parameters_nth_unreached [of outs k module] k neq show ?thesis by simp
  qed
  from once names parameters_names [OF names] changed show ?thesis
    unfolding res by blast
qed

theorem initialized_at_most_once_witness:
  "length (called (snd (outcomes (applicator_call literal_search
          [(''weight'', fill 1), (''layer'', fill 2), (''layer.weight'', fill 3)]
          [(''layer.weight'', 0 :: int), (''embedding'', 0)] ()) ! 0))) \<le> 1
   \<and> called (snd (outcomes (applicator_call literal_search
          [(''weight'', fill 1), (''layer'', fill 2), (''layer.weight'', fill 3)]
          [(''layer.weight'', 0 :: int), (''embedding'', 0)] ()) ! 0)) = [0]
   \<and> parameters (applicator_call literal_search
          [(''weight'', fill 1), (''layer'', fill 2), (''layer.weight'', fill 3)]
          [(''layer.weight'', 0 :: int), (''embedding'', 0)] ())
        = [(''layer.weight'', 1), (''embedding'', 0)]"
  using initialized_at_most_once [of literal_search
          "[(''weight'', fill 1), (''layer'', fill 2), (''layer.weight'', fill 3)]"
          "[(''layer.weight'', 0 :: int), (''embedding'', 0)]" "()"]
  by (simp add: applicator_call_def raised_in_def literal_search_def fill_def)

subsection \<open>Unused patterns\<close>

text \<open>
  Claim C7. When the loop over the parameters has ended without an exception, every
  pattern of the applicator that was found in no parameter name is logged by a warning.
  An applicator none of whose patterns is found in any parameter name completes the call
  without an exception, leaves the module as it was and warns about every pattern. The
  call raises nothing of its own: an exception that leaves it was raised by
  \<^verbatim>\<open>re.search\<close> or by an initializer called on a parameter whose name matched.
\<close>

theorem unused_patterns_logged:
  "(raised (applicator_call search inits module w) = None \<longrightarrow>
      (\<forall>r \<in> fst ` set inits. (\<forall>p \<in> set module. search r (fst p) = Inr False) \<longrightarrow>
          r \<in> unused_warnings (applicator_call search inits module w)))
   \<and> ((\<forall>r \<in> fst ` set inits. \<forall>p \<in> set module. search r (fst p) = Inr False) \<longrightarrow>
        raised (applicator_call search inits module w) = None
        \<and> parameters (applicator_call search inits module w) = module
        \<and> unused_warnings (applicator_call search inits module w) = fst ` set inits)
   \<and> (\<forall>e. raised (applicator_call search inits module w) = Some e \<longrightarrow>
        (\<exists>p \<in> set module. \<exists>q \<in> set inits.
            search (fst q) (fst p) = Inl e
            \<or> (search (fst q) (fst p) = Inr True
                 \<and> (\<exists>w0 t1 w1. snd q (snd p) w0 = (t1, w1, Some e)))))"
proof -
  obtain outs st' where run: "for_named_parameters search inits module
       \<lparr>world = w, unused_regexes = set (map fst inits),
        uninitialized_parameters = {}, info_log = []\<rparr> = (outs, st')"
    and res: "outcomes (applicator_call search inits module w) = outs"
      "raised (applicator_call search inits module w) = raised_in outs"
      "parameters (applicator_call search inits module w) =
         map (\<lambda>(name, out). (name, tensor_after out)) outs @ drop (length outs) module"
      "unused_warnings (applicator_call search inits module w) =
         (if raised_in outs = None then unused_regexes st' else {})"
    by (rule applicator_call_run)
  note str = outer_structure [OF run]
  have keep: "r \<in> unused_regexes st'"
    if "r \<in> fst ` set inits" "\<forall>p \<in> set module. search r (fst p) = Inr False" for r
  proof -
    from that(2) have "\<forall>p \<in> set module. search r (fst p) \<noteq> Inr True" by simp
    from outer_unused_keeps [OF run _ this] that(1) show ?thesis by simp
  qed
  have origin: "\<exists>p \<in> set module. \<exists>q \<in> set inits.
            search (fst q) (fst p) = Inl e
            \<or> (search (fst q) (fst p) = Inr True
                 \<and> (\<exists>w0 t1 w1. snd q (snd p) w0 = (t1, w1, Some e)))"
    if e: "raised_in outs = Some e" for e
  proof -
    from e have ne: "outs \<noteq> []" and last: "exception (snd (last outs)) = Some e"
      by (auto simp: raised_in_def split: if_splits)
    define k where "k = length outs - 1"
    from ne have k: "k < length outs" and lk: "last outs = outs ! k"
      by (simp_all add: k_def last_conv_nth)
    from str k obtain s s' where
      inner: "for_initializers search (fst (module ! k)) inits 0 (snd (module ! k)) s
                    = (snd (outs ! k), s')"
      by blast
    from str k have "module ! k \<in> set module" by simp
    with inner_exception_origin [OF inner] last lk show ?thesis by metis
  qed
  have quiet: "raised_in outs = None" "unused_regexes st' = fst ` set inits"
      "map (\<lambda>(name, out). (name, tensor_after out)) outs @ drop (length outs) module = module"
    if none: "\<forall>r \<in> fst ` set inits. \<forall>p \<in> set module. search r (fst p) = Inr False"
  proof -
    have r: "raised_in outs = None"
    proof (cases "raised_in outs")
      case (Some e)
      from origin [OF Some] none show ?thesis by fastforce
    qed simp
    with str have len: "length outs = length module" by simp
    have "fst ` set inits \<subseteq> unused_regexes st'" using keep none by blast
    moreover from outer_unused_subset [OF run] have "unused_regexes st' \<subseteq> fst ` set inits"
      by simp
    ultimately have u: "unused_regexes st' = fst ` set inits" by blast
    have "map (\<lambda>(name, out). (name, tensor_after out)) outs = module"
    proof (rule nth_equalityI)
      show "length (map (\<lambda>(name, out). (name, tensor_after out)) outs) = length module"
        using len by simp
    next
      fix k assume "k < length (map (\<lambda>(name, out). (name, tensor_after out)) outs)"
      then have k: "k < length outs" by simp
      from str k obtain s s' where name: "fst (outs ! k) = fst (module ! k)"
        and inner: "for_initializers search (fst (module ! k)) inits 0 (snd (module ! k)) s
                    = (snd (outs ! k), s')"
        by blast
      from k len have "module ! k \<in> set module" by simp
      with none have "\<forall>p \<in> set inits. search (fst p) (fst (module ! k)) = Inr False" by simp
      from inner inner_no_match [of inits search "fst (module ! k)" 0 "snd (module ! k)" s] this
      have "snd (outs ! k) = \<lparr>tensor_after = snd (module ! k), exception = None,
             tried = [0..<0 + length inits], called = []\<rparr>"
        by simp
      then have "tensor_after (snd (outs ! k)) = snd (module ! k)" by simp
      with name k show "map (\<lambda>(name, out). (name, tensor_after out)) outs ! k = module ! k"
        by (simp add: case_prod_beta prod_eq_iff)
    qed
    with len have m: "map (\<lambda>(name, out). (name, tensor_after out)) outs
                        @ drop (length outs) module = module"
      by simp
    from r show "raised_in outs = None" .
    from u show "unused_regexes st' = fst ` set inits" .
    from m show "map (\<lambda>(name, out). (name, tensor_after out)) outs
                   @ drop (length outs) module = module" .
  qed
  have c1: "raised_in outs = None \<longrightarrow>
      (\<forall>r \<in> fst ` set inits. (\<forall>p \<in> set module. search r (fst p) = Inr False) \<longrightarrow>
          r \<in> (if raised_in outs = None then unused_regexes st' else {}))"
    using keep by simp
  have c2: "(\<forall>r \<in> fst ` set inits. \<forall>p \<in> set module. search r (fst p) = Inr False) \<longrightarrow>
        raised_in outs = None
        \<and> map (\<lambda>(name, out). (name, tensor_after out)) outs @ drop (length outs) module = module
        \<and> (if raised_in outs = None then unused_regexes st' else {}) = fst ` set inits"
  proof
    assume a: "\<forall>r \<in> fst ` set inits. \<forall>p \<in> set module. search r (fst p) = Inr False"
    note n1 = quiet(1) [OF a] and n2 = quiet(2) [OF a] and n3 = quiet(3) [OF a]
    from n1 n2 have "(if raised_in outs = None then unused_regexes st' else {}) = fst ` set inits"
      by simp
    with n1 n3 show "raised_in outs = None
        \<and> map (\<lambda>(name, out). (name, tensor_after out)) outs @ drop (length outs) module = module
        \<and> (if raised_in outs = None then unused_regexes st' else {}) = fst ` set inits"
      by blast
  qed
  have c3: "\<forall>e. raised_in outs = Some e \<longrightarrow>
        (\<exists>p \<in> set module. \<exists>q \<in> set inits.
            search (fst q) (fst p) = Inl e
            \<or> (search (fst q) (fst p) = Inr True
                 \<and> (\<exists>w0 t1 w1. snd q (snd p) w0 = (t1, w1, Some e))))"
    using origin by blast
  from c1 c2 c3 show ?thesis unfolding res by (intro conjI)
qed

theorem unused_patterns_logged_witness:
  "raised (applicator_call literal_search [(''weight'', fill 1), (''embedding'', fill 2)]
        [(''layer.weight'', 0 :: int)] ()) = None
   \<and> ''embedding'' \<in> unused_warnings (applicator_call literal_search
        [(''weight'', fill 1), (''embedding'', fill 2)] [(''layer.weight'', 0 :: int)] ())
   \<and> raised (applicator_call literal_search [(''embedding'', fill 2), (''bias'', fill 3)]
        [(''layer.weight'', 0 :: int)] ()) = None
   \<and> unused_warnings (applicator_call literal_search [(''embedding'', fill 2), (''bias'', fill 3)]
        [(''layer.weight'', 0 :: int)] ()) = {''embedding'', ''bias''}
   \<and> raised (applicator_call literal_search [(''weight'', failing ZeroDivisionError)]
        [(''layer.weight'', 0 :: int)] ()) = Some ZeroDivisionError"
  using unused_patterns_logged [of literal_search "[(''weight'', fill 1), (''embedding'', fill 2)]"
          "[(''layer.weight'', 0 :: int)]" "()"]
    unused_patterns_logged [of literal_search "[(''embedding'', fill 2), (''bias'', fill 3)]"
          "[(''layer.weight'', 0 :: int)]" "()"]
    unused_patterns_logged [of literal_search "[(''weight'', failing ZeroDivisionError)]"
          "[(''layer.weight'', 0 :: int)]" "()"]
  by (simp add: applicator_call_def raised_in_def literal_search_def fill_def failing_def)

subsection \<open>A regex string listed twice\<close>

text \<open>
  Claim C10, as stated, fails: a regex string listed twice is reported as unused although
  a parameter name matches it, when an earlier pattern of the list matches that name
  too. Here \<^verbatim>\<open>layer\<close> takes \<^verbatim>\<open>layer.weight\<close>, and \<^verbatim>\<open>weight\<close> stays in
  \<^verbatim>\<open>unused_regexes\<close>.
\<close>

theorem duplicate_regex_reported_unused:
  "literal_search ''weight'' ''layer.weight'' = Inr True
   \<and> ''weight'' \<in> unused_warnings
        (applicator_call literal_search
          [(''layer'', fill 1), (''weight'', fill 2), (''weight'', fill 3)]
          [(''layer.weight'', 0 :: int)] ())"
  by (simp add: applicator_call_def raised_in_def literal_search_def fill_def)

text \<open>
  Claim C10, amended. The set \<^verbatim>\<open>unused_regexes\<close> holds regex strings, not pairs: if the
  same regex string is at positions \<open>i < j\<close> of the list, and for some parameter of the
  module the pair at position \<open>i\<close> is the first whose regex is found in its name, then
  the string is not reported as unused; and the initializer at position \<open>j\<close> is called
  on no parameter.
\<close>

theorem duplicate_regex_second_never_called:
  assumes "i < j" and "j < length inits" and "fst (inits ! i) = fst (inits ! j)"
    and "p \<in> set module"
    and "search (fst (inits ! i)) (fst p) = Inr True"
    and "\<forall>m<i. search (fst (inits ! m)) (fst p) = Inr False"
  shows "fst (inits ! j) \<notin> unused_warnings (applicator_call search inits module w)
     \<and> (\<forall>k<length (outcomes (applicator_call search inits module w)).
          j \<notin> set (called (snd (outcomes (applicator_call search inits module w) ! k))))"
proof -
  obtain outs st' where run: "for_named_parameters search inits module
       \<lparr>world = w, unused_regexes = set (map fst inits),
        uninitialized_parameters = {}, info_log = []\<rparr> = (outs, st')"
    and res: "outcomes (applicator_call search inits module w) = outs"
      "unused_warnings (applicator_call search inits module w) =
         (if raised_in outs = None then unused_regexes st' else {})"
    by (rule applicator_call_run)
  note str = outer_structure [OF run]
  have "fst (inits ! j) \<notin> (if raised_in outs = None then unused_regexes st' else {})"
  proof (cases "raised_in outs")
    case None
    from assms(4) have "fst p \<in> fst ` set module" by simp
    from outer_discard [OF run None this _ assms(5,6)] assms(1,2)
    have "fst (inits ! i) \<notin> unused_regexes st'" by simp
    with None assms(3) show ?thesis by simp
  next
    case (Some e)
    then show ?thesis by simp
  qed
  moreover have "\<forall>k<length outs. j \<notin> set (called (snd (outs ! k)))"
  proof (intro allI impI notI)
    fix k assume "k < length outs" and j: "j \<in> set (called (snd (outs ! k)))"
    with str obtain s s' where
      "for_initializers search (fst (module ! k)) inits 0 (snd (module ! k)) s
         = (snd (outs ! k), s')"
      by blast
    from inner_called_first_match [OF this j] assms(1,3) show False by auto
  qed
  ultimately show ?thesis unfolding res by simp
qed

theorem duplicate_regex_second_never_called_witness:
  "''weight'' \<notin> unused_warnings
        (applicator_call literal_search [(''weight'', fill 2), (''weight'', fill 3)]
          [(''layer.weight'', 0 :: int)] ())
   \<and> called (snd (outcomes (applicator_call literal_search
          [(''weight'', fill 2), (''weight'', fill 3)] [(''layer.weight'', 0 :: int)] ()) ! 0))
        = [0]"
  using duplicate_regex_second_never_called [of 0 1 "[(''weight'', fill 2), (''weight'', fill 3)]"
      "(''layer.weight'', 0 :: int)" "[(''layer.weight'', 0 :: int)]" literal_search "()"]
  by (simp add: applicator_call_def raised_in_def literal_search_def fill_def)

section \<open>Properties of block\_orthogonal\<close>

lemma not_divisible_nonzero:
  "\<forall>(a, b) \<in> set ps. b \<noteq> 0 \<Longrightarrow> not_divisible ps = Inr (map (\<lambda>(a, b). a mod b \<noteq> 0) ps)"
  by (induction ps) (auto simp: py_mod_def)

lemma not_divisible_zero:
  "\<exists>(a, b) \<in> set ps. b = 0 \<Longrightarrow> not_divisible ps = Inl ZeroDivisionError"
proof (induction ps)
  case Nil
  then show ?case by simp
next
  case (Cons p ps)
  obtain a b where p: "p = (a, b)" by (cases p)
  show ?case
  proof (cases "b = 0")
    case True
    with p show ?thesis by (simp add: py_mod_def)
  next
    case False
    with Cons.prems p have "\<exists>(a, b) \<in> set ps. b = 0" by auto
    from Cons.IH [OF this] p False show ?thesis by (simp add: py_mod_def)
  qed
qed

lemma any_map: "any (map f xs) = (\<exists>x \<in> set xs. f x)"
  by (simp add: any_def list_ex_iff)

text \<open>
  Claim C2, amended. When no split size paired with a dimension is zero and the size of
  some dimension is not a multiple of its split size, \<^verbatim>\<open>block_orthogonal\<close> raises a
  \<^verbatim>\<open>ConfigurationError\<close> whose message prints the sizes and the split sizes, and the
  tensor holds what it held before: the check comes before the first write.
\<close>

theorem block_orthogonal_not_divisible:
  assumes "\<forall>(a, b) \<in> set (zip (map int (tensor_size t)) split_sizes). b \<noteq> 0"
    and "\<exists>(a, b) \<in> set (zip (map int (tensor_size t)) split_sizes). a mod b \<noteq> 0"
  shows "block_orthogonal orthogonal (Tensor t) split_sizes gain w =
           (Tensor t, w,
            Some (ConfigurationError
                    (divisibility_message (map int (tensor_size t)) split_sizes)))
     \<and> block_orthogonal orthogonal (Variable t) split_sizes gain w =
           (Variable t, w,
            Some (ConfigurationError
                    (divisibility_message (map int (tensor_size t)) split_sizes)))"
proof -
  have "any (map (\<lambda>(a, b). a mod b \<noteq> 0) (zip (map int (tensor_size t)) split_sizes))"
    using assms(2) by (simp add: any_map)
  with not_divisible_nonzero [OF assms(1)]
  have "block_orthogonal_tensor orthogonal t split_sizes gain w =
          (t, w, Some (ConfigurationError
                         (divisibility_message (map int (tensor_size t)) split_sizes)))"
    by (simp add: block_orthogonal_tensor_def)
  then show ?thesis by (simp add: block_orthogonal_def)
qed

theorem block_orthogonal_not_divisible_witness:
  "block_orthogonal keep_block (Tensor (zeros [3, 4])) [2, 2] () () =
     (Tensor (zeros [3, 4]), (),
      Some (ConfigurationError
        (''tensor dimensions must be divisible by their respective split_sizes. ''
         @ ''Found size: [3, 4] and split_sizes: [2, 2]'')))"
proof -
  have nz: "\<forall>(a, b) \<in> set (zip (map int (tensor_size (zeros [3, 4]))) [2, 2 :: int]). b \<noteq> 0"
    by (simp add: zeros_def)
  have nd: "\<exists>(a, b) \<in> set (zip (map int (tensor_size (zeros [3, 4]))) [2, 2 :: int]). a mod b \<noteq> 0"
    by (simp add: zeros_def)
  from nz nd block_orthogonal_not_divisible [where t = "zeros [3, 4]" and split_sizes = "[2, 2]"
      and orthogonal = keep_block and gain = "()" and w = "()"]
  show ?thesis
    by (simp add: zeros_def divisibility_message_def str_list_def str_int_def str_nat.simps)
qed

text \<open>
  Claim C2, as stated for every \<^verbatim>\<open>split_sizes\<close> list, fails where a split size is zero:
  for the sizes \<^verbatim>\<open>[3, 4]\<close> and the split sizes \<^verbatim>\<open>[2, 0]\<close> the first dimension is not
  divisible by its split size, and what is raised is the \<^verbatim>\<open>ZeroDivisionError\<close> of
  \<^verbatim>\<open>4 % 0\<close>, not a \<^verbatim>\<open>ConfigurationError\<close>.
\<close>

theorem zero_split_size_raises_ZeroDivisionError:
  "int 3 mod 2 \<noteq> 0
   \<and> block_orthogonal keep_block (Tensor (zeros [3, 4])) [2, 0] () () =
       (Tensor (zeros [3, 4]), (), Some ZeroDivisionError)"
  by (simp add: block_orthogonal_def block_orthogonal_tensor_def zeros_def py_mod_def)


lemma itertools_product_product_lists: "itertools_product xss = product_lists xss"
  by (induction xss) simp_all

lemma length_block_slice:
  "length (block_slice starts split_sizes) = min (length starts) (length split_sizes)"
  by (simp add: block_slice_def)

lemma length_indexes:
  "length (indexes sizes split_sizes) = min (length sizes) (length split_sizes)"
  by (simp add: indexes_def)

lemma length_starts:
  "starts \<in> set (itertools_product (indexes sizes split_sizes)) \<Longrightarrow>
   length starts = min (length sizes) (length split_sizes)"
  using in_set_product_lists_length [of starts "indexes sizes split_sizes"]
  by (simp add: itertools_product_product_lists length_indexes)

subsection \<open>The blocks tile the tensor\<close>

lemma py_range_multiples:
  "0 < b \<Longrightarrow> m \<le> q \<Longrightarrow>
   py_range (int m * b) (int q * b) b = map (\<lambda>k. int k * b) [m..<q]"
proof (induction "q - m" arbitrary: m)
  case 0
  then have "m = q" by simp
  then show ?case by (simp add: py_range.simps)
next
  case (Suc d)
  then have lt: "m < q" by simp
  with Suc.prems have "int m * b < int q * b" by simp
  moreover from Suc have "py_range (int (Suc m) * b) (int q * b) b
      = map (\<lambda>k. int k * b) [Suc m..<q]"
    by (intro Suc.hyps) simp_all
  ultimately show ?case using Suc.prems(1) lt
    by (subst py_range.simps) (simp add: upt_conv_Cons algebra_simps)
qed

lemma py_range_offsets:
  assumes "0 < b" and "int n mod b = 0"
  shows "py_range 0 (int n) b = map (\<lambda>k. int k * b) [0..<nat (int n div b)]"
proof -
  from assms(2) have "int n = int n div b * b"
    by (simp add: mod_eq_0_iff_dvd)
  with assms(1) have "int n = int (nat (int n div b)) * b"
    by (simp add: pos_imp_zdiv_nonneg_iff)
  with py_range_multiples [OF assms(1), of 0 "nat (int n div b)"] show ?thesis
    by simp
qed

lemma in_offset_block:
  assumes "0 < (b :: int)"
  shows "(int k * b \<le> i \<and> i < int k * b + b) = (0 \<le> i \<and> k = nat (i div b))"
proof
  assume a: "int k * b \<le> i \<and> i < int k * b + b"
  with assms have "0 \<le> i" by (meson mult_nonneg_nonneg of_nat_0_le_iff order_trans less_imp_le)
  moreover from a assms have "i div b = int k"
    by (intro int_div_pos_eq [of _ _ _ "i - int k * b"]) (auto simp: algebra_simps)
  ultimately show "0 \<le> i \<and> k = nat (i div b)" by simp
next
  assume a: "0 \<le> i \<and> k = nat (i div b)"
  with assms have k: "int k = i div b" by (simp add: pos_imp_zdiv_nonneg_iff)
  have e: "b * (i div b) + i mod b = i" by (rule mult_div_mod_eq)
  from assms have r: "0 \<le> i mod b" "i mod b < b" by simp_all
  from e r have "b * (i div b) \<le> i \<and> i < b * (i div b) + b" by linarith
  with k show "int k * b \<le> i \<and> i < int k * b + b" by (simp add: mult.commute)
qed


lemma length_filter_eq_upt: "length (filter (\<lambda>k. k = c) [0..<q]) = (if c < q then 1 else 0)"
  by (induction q) auto

lemma div_less_quotient:
  assumes "0 < (b :: int)" and "i < q * b"
  shows "i div b < q"
proof -
  have e: "b * (i div b) + i mod b = i" by (rule mult_div_mod_eq)
  from assms(1) have "0 \<le> i mod b" by simp
  with e have "b * (i div b) \<le> i" by linarith
  with assms(2) have "b * (i div b) < b * q" by (simp add: mult.commute)
  with assms(1) show ?thesis by (simp add: mult_less_cancel_left_pos)
qed

lemma one_offset_block:
  assumes "0 < b" and "int n mod b = 0" and "i < n"
  shows "length (filter (\<lambda>x. x \<le> int i \<and> int i < x + b) (py_range 0 (int n) b)) = 1"
proof -
  from assms(2) have n: "int n = int n div b * b"
    by (simp add: mod_eq_0_iff_dvd)
  with assms(3) have "int i < int n div b * b" by simp
  from div_less_quotient [OF assms(1) this] have lt: "int i div b < int n div b" .
  have nn: "0 \<le> int i div b" using assms(1) by (simp add: pos_imp_zdiv_nonneg_iff)
  from lt nn have c: "nat (int i div b) < nat (int n div b)" by linarith
  have "filter (\<lambda>x. x \<le> int i \<and> int i < x + b) (py_range 0 (int n) b)
      = map (\<lambda>k. int k * b) (filter (\<lambda>k. k = nat (int i div b)) [0..<nat (int n div b)])"
    by (simp add: py_range_offsets [OF assms(1,2)] filter_map o_def in_offset_block [OF assms(1)])
  with c show ?thesis by (simp add: length_filter_eq_upt)
qed


lemma length_filter_product_step:
  "length (filter Q (concat (map (\<lambda>x. map (\<lambda>rest. x # rest) P) R)))
     = (\<Sum>x\<leftarrow>R. length (filter (\<lambda>rest. Q (x # rest)) P))"
  by (induction R) (simp_all add: filter_map o_def)

lemma sum_list_indicator:
  "(\<Sum>x\<leftarrow>R. if C x then (1::nat) else 0) = length (filter C R)"
  by (induction R) simp_all

lemma block_slice_Cons:
  "block_slice (x # rest) (b # split_sizes) = (x, x + b) # block_slice rest split_sizes"
  by (simp add: block_slice_def)

lemma indexes_Cons:
  "indexes (a # sizes) (b # split_sizes) = py_range 0 a b # indexes sizes split_sizes"
  by (simp add: indexes_def)

lemma one_block_covers:
  "valid_index ns idx \<Longrightarrow>
   \<forall>(a, b) \<in> set (zip (map int ns) split_sizes). 0 < b \<and> a mod b = 0 \<Longrightarrow>
   length (filter (\<lambda>starts. in_slices (block_slice starts split_sizes) idx)
             (itertools_product (indexes (map int ns) split_sizes))) = 1"
proof (induction ns arbitrary: idx split_sizes)
  case Nil
  then show ?case by (simp add: indexes_def block_slice_def)
next
  case (Cons n ns)
  from Cons.prems(1) obtain i idx' where idx: "idx = i # idx'" and i: "i < n"
    and idx': "valid_index ns idx'"
    by (auto simp: valid_index_def list_all2_Cons2)
  show ?case
  proof (cases split_sizes)
    case Nil
    then show ?thesis by (simp add: indexes_def block_slice_def)
  next
    case (Cons b rest)
    with Cons.prems(2) have b: "0 < b" "int n mod b = 0"
      and rest: "\<forall>(a, b) \<in> set (zip (map int ns) rest). 0 < b \<and> a mod b = 0"
      by simp_all
    note IH = Cons.IH [OF idx' rest]
    have inner: "length (filter (\<lambda>starts. in_slices (block_slice (x # starts) (b # rest)) (i # idx'))
                       (itertools_product (indexes (map int ns) rest)))
                 = (if x \<le> int i \<and> int i < x + b then 1 else 0)" for x
    proof (cases "x \<le> int i \<and> int i < x + b")
      case True
      with IH show ?thesis by (simp add: block_slice_Cons)
    next
      case False
      then show ?thesis by (auto simp: block_slice_Cons)
    qed
    show ?thesis
      unfolding idx Cons
      by (simp add: indexes_Cons length_filter_product_step inner sum_list_indicator
          one_offset_block [OF b i] del: in_slices.simps)
  qed
qed

lemma sorted_offsets:
  assumes "0 < b" and "int n mod b = 0"
  shows "sorted_wrt (<) (py_range 0 (int n) b)"
proof -
  have "sorted_wrt (\<lambda>x y. int x * b < int y * b) [0..<nat (int n div b)]"
    by (rule sorted_wrt_mono_rel [OF _ sorted_wrt_upt]) (use assms(1) in simp)
  then show ?thesis by (simp add: py_range_offsets [OF assms] sorted_wrt_map)
qed

lemma sorted_product_step:
  fixes xs :: "int list"
  assumes "sorted_wrt (<) xs"
    and "sorted_wrt (\<lambda>u v. (u, v) \<in> lexord {(x, y). x < y}) P"
  shows "sorted_wrt (\<lambda>u v. (u, v) \<in> lexord {(x, y). x < y})
           (concat (map (\<lambda>x. map (\<lambda>rest. x # rest) P) xs))"
  using assms(1)
proof (induction xs)
  case Nil
  then show ?case by simp
next
  case (Cons x xs)
  have "sorted_wrt (\<lambda>u v. (u, v) \<in> lexord {(x, y). x < y}) (map (\<lambda>rest. x # rest) P)"
    using assms(2) by (simp add: sorted_wrt_map)
  moreover from Cons have "sorted_wrt (\<lambda>u v. (u, v) \<in> lexord {(x, y). x < y})
           (concat (map (\<lambda>x. map (\<lambda>rest. x # rest) P) xs))"
    by simp
  moreover from Cons.prems have "\<forall>y \<in> set xs. x < y" by simp
  ultimately show ?case by (auto simp: sorted_wrt_append)
qed

lemma sorted_product:
  fixes xss :: "int list list"
  shows "\<forall>xs \<in> set xss. sorted_wrt (<) xs \<Longrightarrow>
         sorted_wrt (\<lambda>u v. (u, v) \<in> lexord {(x, y). x < y}) (itertools_product xss)"
  by (induction xss) (simp_all add: sorted_product_step)

lemma sorted_indexes:
  "\<forall>(a, b) \<in> set (zip (map int ns) split_sizes). 0 < b \<and> a mod b = 0 \<Longrightarrow>
   \<forall>xs \<in> set (indexes (map int ns) split_sizes). sorted_wrt (<) xs"
  by (auto simp: indexes_def zip_map1 sorted_offsets)

lemma indexes_offsets:
  "\<forall>(a, b) \<in> set (zip (map int ns) split_sizes). 0 < b \<and> a mod b = 0 \<Longrightarrow>
   indexes (map int ns) split_sizes
     = map (\<lambda>(a, b). map (\<lambda>k. int k * b) [0..<nat (a div b)]) (zip (map int ns) split_sizes)"
  by (auto simp: indexes_def zip_map1 py_range_offsets)


lemma offset_bounds:
  assumes "0 < b" and "int n mod b = 0" and "x \<in> set (py_range 0 (int n) b)"
  shows "0 \<le> x \<and> x + b \<le> int n"
proof -
  from assms(3) obtain k where k: "k < nat (int n div b)" and x: "x = int k * b"
    by (auto simp: py_range_offsets [OF assms(1,2)])
  from assms(2) have n: "int n = int n div b * b"
    by (simp add: mod_eq_0_iff_dvd)
  from k have "int k + 1 \<le> int n div b" by linarith
  with assms(1) have "(int k + 1) * b \<le> int n div b * b"
    by (intro mult_right_mono) simp_all
  with n have "int k * b + b \<le> int n" by (simp add: algebra_simps)
  with x assms(1) show ?thesis by simp
qed

lemma blocks_inside:
  "\<forall>(a, b) \<in> set (zip (map int ns) split_sizes). 0 < b \<and> a mod b = 0 \<Longrightarrow>
   starts \<in> set (itertools_product (indexes (map int ns) split_sizes)) \<Longrightarrow>
   list_all2 (\<lambda>(start, stop) n. 0 \<le> start \<and> start < stop \<and> stop \<le> int n)
     (block_slice starts split_sizes) (take (length split_sizes) ns)"
proof (induction ns arbitrary: split_sizes starts)
  case Nil
  then show ?case by (simp add: indexes_def block_slice_def)
next
  case (Cons n ns)
  show ?case
  proof (cases split_sizes)
    case Nil
    then show ?thesis by (simp add: block_slice_def)
  next
    case (Cons b rest)
    with Cons.prems(1) have b: "0 < b" "int n mod b = 0"
      and rest: "\<forall>(a, b) \<in> set (zip (map int ns) rest). 0 < b \<and> a mod b = 0"
      by simp_all
    from Cons.prems(2) Cons obtain x st where starts: "starts = x # st"
      and x: "x \<in> set (py_range 0 (int n) b)"
      and st: "st \<in> set (itertools_product (indexes (map int ns) rest))"
      by (auto simp: indexes_Cons)
    from offset_bounds [OF b x] b(1) Cons.IH [OF rest st] show ?thesis
      unfolding starts Cons by (simp add: block_slice_Cons)
  qed
qed

text \<open>
  Claim C3, amended. When every split size paired with a dimension is positive and
  divides the size of its dimension, the check passes and the loop runs over
  \<^verbatim>\<open>itertools.product(*indexes)\<close>, where the offsets of a dimension of size \<open>a\<close> with
  split size \<open>b\<close> are \<open>0, b, 2 b, ...\<close> below \<open>a\<close>. The tuples of the product are
  exactly those that take one offset from each dimension in dimension order, and they
  come in strictly increasing lexicographic order. The block of a tuple is the slice
  from start to start plus split size in each of these dimensions, and it lies inside
  the tensor. Every valid index of the tensor lies in exactly one block: the blocks
  leave no gap and do not overlap.
\<close>

theorem blocks_tile_the_tensor:
  assumes "\<forall>(a, b) \<in> set (zip (map int (tensor_size t)) split_sizes). 0 < b \<and> a mod b = 0"
  shows "block_orthogonal_tensor orthogonal t split_sizes gain w =
           for_blocks orthogonal gain split_sizes
             (itertools_product (indexes (map int (tensor_size t)) split_sizes)) t w
     \<and> indexes (map int (tensor_size t)) split_sizes =
           map (\<lambda>(a, b). map (\<lambda>k. int k * b) [0..<nat (a div b)])
             (zip (map int (tensor_size t)) split_sizes)
     \<and> set (itertools_product (indexes (map int (tensor_size t)) split_sizes)) =
           {starts. list_all2 (\<lambda>x xs. x \<in> set xs) starts
                      (indexes (map int (tensor_size t)) split_sizes)}
     \<and> sorted_wrt (\<lambda>u v. (u, v) \<in> lexord {(x, y). x < y})
           (itertools_product (indexes (map int (tensor_size t)) split_sizes))
     \<and> (\<forall>starts \<in> set (itertools_product (indexes (map int (tensor_size t)) split_sizes)).
           list_all2 (\<lambda>(start, stop) n. 0 \<le> start \<and> start < stop \<and> stop \<le> int n)
             (block_slice starts split_sizes)
             (take (length split_sizes) (tensor_size t)))
     \<and> (\<forall>idx. valid_index (tensor_size t) idx \<longrightarrow>
           length (blocks_containing (tensor_size t) split_sizes idx) = 1)"
proof -
  from assms have nz: "\<forall>(a, b) \<in> set (zip (map int (tensor_size t)) split_sizes). b \<noteq> 0"
    by auto
  from assms have "\<not> any (map (\<lambda>(a, b). a mod b \<noteq> 0)
                          (zip (map int (tensor_size t)) split_sizes))"
    by (auto simp: any_map)
  with not_divisible_nonzero [OF nz]
  have run: "block_orthogonal_tensor orthogonal t split_sizes gain w =
           for_blocks orthogonal gain split_sizes
             (itertools_product (indexes (map int (tensor_size t)) split_sizes)) t w"
    by (simp add: block_orthogonal_tensor_def)
  have cover: "length (blocks_containing (tensor_size t) split_sizes idx) = 1"
    if "valid_index (tensor_size t) idx" for idx
    using one_block_covers [OF that assms] that
    by (simp add: blocks_containing_def in_block_def)
  from run indexes_offsets [OF assms]
    product_lists_set [of "indexes (map int (tensor_size t)) split_sizes"]
    sorted_product [OF sorted_indexes [OF assms]] blocks_inside [OF assms] cover
  show ?thesis
    unfolding itertools_product_product_lists by blast
qed

theorem blocks_tile_the_tensor_witness:
  "itertools_product (indexes (map int (tensor_size (zeros [4, 6]))) [2, 3])
     = [[0, 0], [0, 3], [2, 0], [2, 3]]
   \<and> blocks_containing (tensor_size (zeros [4, 6])) [2, 3] [3, 1] = [[2, 0]]
   \<and> block_orthogonal_tensor keep_block (zeros [4, 6]) [2, 3] () ()
       = for_blocks keep_block () [2, 3] [[0, 0], [0, 3], [2, 0], [2, 3]] (zeros [4, 6]) ()"
proof -
  have h: "\<forall>(a, b) \<in> set (zip (map int (tensor_size (zeros [4, 6]))) [2, 3]).
             0 < b \<and> a mod b = 0"
    by (simp add: zeros_def)
  have p: "itertools_product (indexes (map int (tensor_size (zeros [4, 6]))) [2, 3])
     = [[0, 0], [0, 3], [2, 0], [2, 3]]"
    by (simp add: zeros_def indexes_def py_range.simps)
  have c: "blocks_containing (tensor_size (zeros [4, 6])) [2, 3] [3, 1] = [[2, 0]]"
    by (simp add: blocks_containing_def in_block_def valid_index_def block_slice_def
        zeros_def indexes_def py_range.simps)
  from h blocks_tile_the_tensor [where t = "zeros [4, 6]" and split_sizes = "[2, 3]"
      and orthogonal = keep_block and gain = "()" and w = "()"]
  have "block_orthogonal_tensor keep_block (zeros [4, 6]) [2, 3] () ()
       = for_blocks keep_block () [2, 3]
           (itertools_product (indexes (map int (tensor_size (zeros [4, 6]))) [2, 3]))
           (zeros [4, 6]) ()"
    by blast
  with p c show ?thesis by simp
qed

text \<open>
  Claim C3, as stated for every tensor whose sizes are divisible by the split sizes,
  fails for a negative split size: the size 4 is divisible by \<open>- 2\<close>
  (\<^verbatim>\<open>4 % -2 == 0\<close>), the check passes, \<^verbatim>\<open>range(0, 4, -2)\<close> is empty, and the call
  returns without having visited a block, so the index \<open>[0]\<close> is in no block.
\<close>

theorem negative_split_size_leaves_gaps:
  "not_divisible (zip (map int (tensor_size (zeros [4]))) [- 2]) = Inr [False]
   \<and> valid_index (tensor_size (zeros [4])) [0]
   \<and> blocks_containing (tensor_size (zeros [4])) [- 2] [0] = []
   \<and> block_orthogonal keep_block (Tensor (zeros [4])) [- 2] () ()
       = (Tensor (zeros [4]), (), None)"
  by (simp add: zeros_def py_mod_def valid_index_def blocks_containing_def indexes_def
      py_range.simps block_orthogonal_def block_orthogonal_tensor_def any_def)

subsection \<open>Fewer split sizes than dimensions\<close>

lemma tensor_size_setitem: "tensor_size (setitem t slices block) = tensor_size t"
  by (simp add: setitem_def)

lemma elems_setitem:
  "elems (setitem t slices block) idx =
     (if in_block (tensor_size t) slices idx then elems block (to_block slices idx)
      else elems t idx)"
  by (simp add: setitem_def)

lemma for_blocks_Cons_cases [consumes 1, case_names raises continues]:
  assumes "for_blocks orthogonal gain split_sizes (s # rest) t w = (t', w', exn)"
  obtains
    (raises) e where
      "orthogonal (getitem t (block_slice s split_sizes)) gain w = (Inl e, w')"
      "t' = t" "exn = Some e"
  | (continues) block w1 where
      "orthogonal (getitem t (block_slice s split_sizes)) gain w = (Inr block, w1)"
      "for_blocks orthogonal gain split_sizes rest
         (setitem t (block_slice s split_sizes) block) w1 = (t', w', exn)"
proof -
  obtain r w1 where c: "orthogonal (getitem t (block_slice s split_sizes)) gain w = (r, w1)"
    by (cases "orthogonal (getitem t (block_slice s split_sizes)) gain w")
  show thesis
  proof (cases r)
    case (Inl e)
    with assms c show thesis by (intro raises [of e]) simp_all
  next
    case (Inr block)
    with assms c show thesis by (intro continues [of block w1]) simp_all
  qed
qed

lemma for_blocks_frame:
  "for_blocks orthogonal gain split_sizes bs t w = (t', w', exn) \<Longrightarrow>
   tensor_size t' = tensor_size t
   \<and> (\<forall>idx. (\<forall>s \<in> set bs. \<not> in_block (tensor_size t) (block_slice s split_sizes) idx)
          \<longrightarrow> elems t' idx = elems t idx)"
proof (induction bs arbitrary: t w)
  case Nil
  then show ?case by simp
next
  case (Cons s bs)
  from Cons.prems show ?case
  proof (cases rule: for_blocks_Cons_cases)
    case (raises e)
    then show ?thesis by simp
  next
    case (continues block w1)
    from Cons.IH [OF continues(2)] show ?thesis
      by (simp add: tensor_size_setitem elems_setitem)
  qed
qed

lemma for_blocks_origin:
  "for_blocks orthogonal gain split_sizes bs t w = (t', w', Some e) \<Longrightarrow>
   \<exists>s \<in> set bs. \<exists>t0 w0. tensor_size t0 = tensor_size t
      \<and> fst (orthogonal (getitem t0 (block_slice s split_sizes)) gain w0) = Inl e"
proof (induction bs arbitrary: t w)
  case Nil
  then show ?case by simp
next
  case (Cons s bs)
  from Cons.prems show ?case
  proof (cases rule: for_blocks_Cons_cases)
    case (raises e')
    then have "fst (orthogonal (getitem t (block_slice s split_sizes)) gain w) = Inl e"
      by simp
    then show ?thesis by auto
  next
    case (continues block w1)
    from Cons.IH [OF continues(2)] show ?thesis
      by (auto simp: tensor_size_setitem)
  qed
qed

lemma for_blocks_written:
  "for_blocks orthogonal gain split_sizes bs t w = (t', w', None) \<Longrightarrow>
   length (filter (\<lambda>s. in_block (tensor_size t) (block_slice s split_sizes) idx) bs) \<le> 1 \<Longrightarrow>
   s \<in> set bs \<Longrightarrow> in_block (tensor_size t) (block_slice s split_sizes) idx \<Longrightarrow>
   \<exists>t0 w0 block. tensor_size t0 = tensor_size t
      \<and> fst (orthogonal (getitem t0 (block_slice s split_sizes)) gain w0) = Inr block
      \<and> elems t' idx = elems block (to_block (block_slice s split_sizes) idx)"
proof (induction bs arbitrary: t w)
  case Nil
  then show ?case by simp
next
  case (Cons b bs)
  from Cons.prems(1) show ?case
  proof (cases rule: for_blocks_Cons_cases)
    case (raises e)
    then show ?thesis by simp
  next
    case (continues block w1)
    note frame = for_blocks_frame [OF continues(2)]
    show ?thesis
    proof (cases "in_block (tensor_size t) (block_slice b split_sizes) idx")
      case True
      with Cons.prems(2)
      have none: "filter (\<lambda>s. in_block (tensor_size t) (block_slice s split_sizes) idx) bs = []"
        by simp
      then have out: "\<forall>s \<in> set bs. \<not> in_block (tensor_size t) (block_slice s split_sizes) idx"
        by (simp add: filter_empty_conv)
      with Cons.prems(3,4) have sb: "s = b" by auto
      from frame out have "elems t' idx
          = elems (setitem t (block_slice b split_sizes) block) idx"
        by (simp add: tensor_size_setitem)
      with True have "elems t' idx = elems block (to_block (block_slice b split_sizes) idx)"
        by (simp add: elems_setitem)
      moreover from continues(1)
      have "fst (orthogonal (getitem t (block_slice b split_sizes)) gain w) = Inr block"
        by simp
      ultimately show ?thesis unfolding sb by blast
    next
      case False
      with Cons.prems(3,4) have s: "s \<in> set bs" by auto
      from False Cons.prems(2)
      have le: "length (filter (\<lambda>s. in_block
                   (tensor_size (setitem t (block_slice b split_sizes) block))
                   (block_slice s split_sizes) idx) bs) \<le> 1"
        by (simp add: tensor_size_setitem)
      from Cons.prems(4)
      have "in_block (tensor_size (setitem t (block_slice b split_sizes) block))
              (block_slice s split_sizes) idx"
        by (simp add: tensor_size_setitem)
      from Cons.IH [OF continues(2) le s this] show ?thesis
        by (simp add: tensor_size_setitem)
    qed
  qed
qed


lemma in_slices_pointwise:
  "length starts = length split_sizes \<Longrightarrow> length split_sizes \<le> length idx \<Longrightarrow>
   in_slices (block_slice starts split_sizes) idx
     = (\<forall>i<length split_sizes.
          starts ! i \<le> int (idx ! i) \<and> int (idx ! i) < starts ! i + split_sizes ! i)"
proof (induction starts split_sizes arbitrary: idx rule: list_induct2)
  case Nil
  then show ?case by (simp add: block_slice_def)
next
  case (Cons x starts b split_sizes)
  from Cons.prems obtain i idx' where idx: "idx = i # idx'" by (cases idx) auto
  with Cons.prems have "length split_sizes \<le> length idx'" by simp
  from Cons.IH [OF this] show ?case
    unfolding idx by (auto simp: block_slice_Cons less_Suc_eq_0_disj)
qed

lemma to_block_pointwise:
  "length starts = length split_sizes \<Longrightarrow> length split_sizes \<le> length idx \<Longrightarrow>
   to_block (block_slice starts split_sizes) idx
     = map (\<lambda>i. idx ! i - nat (starts ! i)) [0..<length split_sizes]
       @ drop (length split_sizes) idx"
proof (induction starts split_sizes arbitrary: idx rule: list_induct2)
  case Nil
  then show ?case by (simp add: block_slice_def)
next
  case (Cons x starts b split_sizes)
  from Cons.prems obtain i idx' where idx: "idx = i # idx'" by (cases idx) auto
  with Cons.prems have "length split_sizes \<le> length idx'" by simp
  from Cons.IH [OF this] show ?case
    unfolding idx
    by (simp add: block_slice_Cons upt_conv_Cons map_Suc_upt [symmetric] del: upt_Suc)
qed

lemma block_size_inside:
  "length starts = length split_sizes \<Longrightarrow> length split_sizes \<le> length ns \<Longrightarrow>
   list_all2 (\<lambda>(start, stop) n. 0 \<le> start \<and> start < stop \<and> stop \<le> int n)
     (block_slice starts split_sizes) (take (length split_sizes) ns) \<Longrightarrow>
   block_size (block_slice starts split_sizes) ns
     = map nat split_sizes @ drop (length split_sizes) ns"
proof (induction starts split_sizes arbitrary: ns rule: list_induct2)
  case Nil
  then show ?case by (cases ns) (simp_all add: block_slice_def)
next
  case (Cons x starts b split_sizes)
  from Cons.prems obtain n ns' where ns: "ns = n # ns'" by (cases ns) auto
  with Cons.prems have "length split_sizes \<le> length ns'"
    and "list_all2 (\<lambda>(start, stop) n. 0 \<le> start \<and> start < stop \<and> stop \<le> int n)
           (block_slice starts split_sizes) (take (length split_sizes) ns')"
    and "x + b \<le> int n"
    by (simp_all add: block_slice_Cons)
  with Cons.IH [of ns'] show ?case
    unfolding ns by (simp add: block_slice_Cons min_def)
qed

lemma py_range_nonempty_positive:
  "x \<in> set (py_range 0 (int n) b) \<Longrightarrow> 0 < b"
  by (subst (asm) py_range.simps) (auto split: if_splits)

lemma product_member_positive:
  "starts \<in> set (itertools_product (indexes (map int ns) split_sizes)) \<Longrightarrow>
   \<forall>(a, b) \<in> set (zip (map int ns) split_sizes). 0 < b"
proof (induction ns arbitrary: split_sizes starts)
  case Nil
  then show ?case by simp
next
  case (Cons n ns)
  show ?case
  proof (cases split_sizes)
    case Nil
    then show ?thesis by simp
  next
    case (Cons b rest)
    with Cons.prems obtain x st where "x \<in> set (py_range 0 (int n) b)"
      and "st \<in> set (itertools_product (indexes (map int ns) rest))"
      by (auto simp: indexes_Cons)
    with Cons.IH [of st rest] py_range_nonempty_positive [of x n b] Cons show ?thesis
      by simp
  qed
qed

lemma zip_pointwise:
  "length ys \<le> length xs \<Longrightarrow>
   (\<forall>(a, b) \<in> set (zip xs ys). P a b) = (\<forall>i<length ys. P (xs ! i) (ys ! i))"
  by (auto simp: set_zip) 

lemma indexes_pointwise:
  "length split_sizes \<le> length ns \<Longrightarrow>
   indexes (map int ns) split_sizes
     = map (\<lambda>i. py_range 0 (int (ns ! i)) (split_sizes ! i)) [0..<length split_sizes]"
  by (rule nth_equalityI) (simp_all add: indexes_def)


text \<open>
  Claim C9. Let the tensor have more dimensions than \<^verbatim>\<open>split_sizes\<close> has entries. Then
  the only exceptions of \<^verbatim>\<open>block_orthogonal\<close> are these: the \<^verbatim>\<open>ZeroDivisionError\<close> of a
  zero split size; the \<^verbatim>\<open>ConfigurationError\<close> of a size, among the first
  \<^verbatim>\<open>len(split_sizes)\<close>, that its split size does not divide; and, when that check
  passes, an exception that \<^verbatim>\<open>orthogonal\<close> itself raised on a block. None comes from the
  difference in length, and the sizes of the other dimensions play no part in the check.
  The block starts are the ranges of the first \<^verbatim>\<open>len(split_sizes)\<close> dimensions alone. A
  block has one start for each of these dimensions; an index lies in it exactly when it is
  a valid index whose first \<^verbatim>\<open>len(split_sizes)\<close> coordinates lie in the slices, whatever
  its other coordinates; inside the block the index keeps its other coordinates; and the
  block handed to \<^verbatim>\<open>orthogonal\<close> has the split sizes followed by the full sizes of the
  other dimensions. When the call returns, every element of every block holds what
  \<^verbatim>\<open>orthogonal\<close> returned for that block at the element's place in the block.
\<close>

theorem fewer_split_sizes_than_dimensions:
  assumes "length split_sizes < length (tensor_size t)"
    and "block_orthogonal_tensor orthogonal t split_sizes gain w = (t', w', exn)"
  shows "(0 \<in> set split_sizes \<longrightarrow> (t', w', exn) = (t, w, Some ZeroDivisionError))
     \<and> (0 \<notin> set split_sizes
          \<and> (\<exists>i<length split_sizes. int (tensor_size t ! i) mod split_sizes ! i \<noteq> 0) \<longrightarrow>
          (t', w', exn) =
            (t, w, Some (ConfigurationError
                           (divisibility_message (map int (tensor_size t)) split_sizes))))
     \<and> (0 \<notin> set split_sizes
          \<and> (\<forall>i<length split_sizes. int (tensor_size t ! i) mod split_sizes ! i = 0) \<longrightarrow>
          tensor_size t' = tensor_size t
          \<and> (\<forall>e. exn = Some e \<longrightarrow>
                (\<exists>starts \<in> set (itertools_product
                                    (indexes (map int (tensor_size t)) split_sizes)).
                   \<exists>t0 w0. tensor_size t0 = tensor_size t
                     \<and> fst (orthogonal (getitem t0 (block_slice starts split_sizes)) gain w0)
                         = Inl e))
          \<and> (exn = None \<longrightarrow>
                (\<forall>starts \<in> set (itertools_product
                                    (indexes (map int (tensor_size t)) split_sizes)).
                   \<forall>idx. in_block (tensor_size t) (block_slice starts split_sizes) idx \<longrightarrow>
                     (\<exists>t0 w0 block. tensor_size t0 = tensor_size t
                        \<and> fst (orthogonal (getitem t0 (block_slice starts split_sizes)) gain w0)
                            = Inr block
                        \<and> elems t' idx
                            = elems block (to_block (block_slice starts split_sizes) idx)))))
     \<and> indexes (map int (tensor_size t)) split_sizes =
          map (\<lambda>i. py_range 0 (int (tensor_size t ! i)) (split_sizes ! i))
            [0..<length split_sizes]
     \<and> (\<forall>starts \<in> set (itertools_product (indexes (map int (tensor_size t)) split_sizes)).
          length starts = length split_sizes
          \<and> (\<forall>idx. in_block (tensor_size t) (block_slice starts split_sizes) idx =
                 (valid_index (tensor_size t) idx
                  \<and> (\<forall>i<length split_sizes.
                        starts ! i \<le> int (idx ! i)
                        \<and> int (idx ! i) < starts ! i + split_sizes ! i)))
          \<and> (\<forall>idx. valid_index (tensor_size t) idx \<longrightarrow>
                 to_block (block_slice starts split_sizes) idx =
                   map (\<lambda>i. idx ! i - nat (starts ! i)) [0..<length split_sizes]
                   @ drop (length split_sizes) idx)
          \<and> ((\<forall>i<length split_sizes. int (tensor_size t ! i) mod split_sizes ! i = 0) \<longrightarrow>
                 tensor_size (getitem t (block_slice starts split_sizes)) =
                   map nat split_sizes @ drop (length split_sizes) (tensor_size t)))"
proof -
  let ?ns = "tensor_size t"
  let ?ps = "zip (map int ?ns) split_sizes"
  let ?P = "itertools_product (indexes (map int ?ns) split_sizes)"
  from assms(1) have le: "length split_sizes \<le> length (map int ?ns)" by simp
  have nth_int: "\<And>i. i < length split_sizes \<Longrightarrow> map int ?ns ! i = int (?ns ! i)"
    using assms(1) by simp
  have zero_iff: "(\<forall>(a, b) \<in> set ?ps. b \<noteq> 0) = (0 \<notin> set split_sizes)"
    using zip_pointwise [OF le, where P = "\<lambda>a b. b \<noteq> 0"]
    by (auto simp: in_set_conv_nth)
  have div_iff: "(\<forall>(a, b) \<in> set ?ps. a mod b = 0)
      = (\<forall>i<length split_sizes. int (?ns ! i) mod split_sizes ! i = 0)"
    using zip_pointwise [OF le, where P = "\<lambda>a b. a mod b = 0"] nth_int by simp
  have c1: "(t', w', exn) = (t, w, Some ZeroDivisionError)" if "0 \<in> set split_sizes"
  proof -
    from that zero_iff have "\<exists>(a, b) \<in> set ?ps. b = 0" by auto
    from not_divisible_zero [OF this] assms(2) show ?thesis
      by (simp add: block_orthogonal_tensor_def)
  qed
  have c2: "(t', w', exn) =
      (t, w, Some (ConfigurationError (divisibility_message (map int ?ns) split_sizes)))"
    if nz: "0 \<notin> set split_sizes"
      and nd: "\<exists>i<length split_sizes. int (?ns ! i) mod split_sizes ! i \<noteq> 0"
  proof -
    from nz zero_iff have z: "\<forall>(a, b) \<in> set ?ps. b \<noteq> 0" by simp
    from nd div_iff have "\<exists>(a, b) \<in> set ?ps. a mod b \<noteq> 0" by auto
    then have "any (map (\<lambda>(a, b). a mod b \<noteq> 0) ?ps)" by (simp add: any_map)
    with not_divisible_nonzero [OF z] assms(2) show ?thesis
      by (auto simp: block_orthogonal_tensor_def)
  qed
  have c3: "tensor_size t' = ?ns
      \<and> (\<forall>e. exn = Some e \<longrightarrow>
            (\<exists>starts \<in> set ?P. \<exists>t0 w0. tensor_size t0 = ?ns
               \<and> fst (orthogonal (getitem t0 (block_slice starts split_sizes)) gain w0) = Inl e))
      \<and> (exn = None \<longrightarrow>
            (\<forall>starts \<in> set ?P. \<forall>idx. in_block ?ns (block_slice starts split_sizes) idx \<longrightarrow>
               (\<exists>t0 w0 block. tensor_size t0 = ?ns
                  \<and> fst (orthogonal (getitem t0 (block_slice starts split_sizes)) gain w0)
                      = Inr block
                  \<and> elems t' idx
                      = elems block (to_block (block_slice starts split_sizes) idx))))"
    if nz: "0 \<notin> set split_sizes"
      and dv: "\<forall>i<length split_sizes. int (?ns ! i) mod split_sizes ! i = 0"
  proof -
    from nz zero_iff have z: "\<forall>(a, b) \<in> set ?ps. b \<noteq> 0" by simp
    from dv div_iff have d: "\<forall>(a, b) \<in> set ?ps. a mod b = 0" by simp
    then have "\<not> any (map (\<lambda>(a, b). a mod b \<noteq> 0) ?ps)" by (auto simp: any_map)
    with not_divisible_nonzero [OF z] assms(2)
    have run: "for_blocks orthogonal gain split_sizes ?P t w = (t', w', exn)"
      by (simp add: block_orthogonal_tensor_def)
    from for_blocks_frame [OF run] have size: "tensor_size t' = ?ns" by simp
    have origin: "\<exists>starts \<in> set ?P. \<exists>t0 w0. tensor_size t0 = ?ns
               \<and> fst (orthogonal (getitem t0 (block_slice starts split_sizes)) gain w0) = Inl e"
      if "exn = Some e" for e
      using for_blocks_origin [of orthogonal gain split_sizes ?P t w t' w' e] run that
      by simp
    have written: "\<exists>t0 w0 block. tensor_size t0 = ?ns
                  \<and> fst (orthogonal (getitem t0 (block_slice starts split_sizes)) gain w0)
                      = Inr block
                  \<and> elems t' idx
                      = elems block (to_block (block_slice starts split_sizes) idx)"
      if n: "exn = None" and s: "starts \<in> set ?P"
        and b: "in_block ?ns (block_slice starts split_sizes) idx" for starts idx
    proof -
      from b have v: "valid_index ?ns idx" by (simp add: in_block_def)
      from product_member_positive [OF s] d
      have pos: "\<forall>(a, b) \<in> set ?ps. 0 < b \<and> a mod b = 0" by auto
      from one_block_covers [OF v pos] v
      have "length (filter (\<lambda>s. in_block ?ns (block_slice s split_sizes) idx) ?P) \<le> 1"
        by (simp add: in_block_def)
      from for_blocks_written [OF run [unfolded n] this s b] show ?thesis .
    qed
    from size origin written show ?thesis by blast
  qed
  have c4: "indexes (map int ?ns) split_sizes =
      map (\<lambda>i. py_range 0 (int (?ns ! i)) (split_sizes ! i)) [0..<length split_sizes]"
    using assms(1) by (intro indexes_pointwise) simp
  have c5: "length starts = length split_sizes
      \<and> (\<forall>idx. in_block ?ns (block_slice starts split_sizes) idx =
             (valid_index ?ns idx
              \<and> (\<forall>i<length split_sizes.
                    starts ! i \<le> int (idx ! i)
                    \<and> int (idx ! i) < starts ! i + split_sizes ! i)))
      \<and> (\<forall>idx. valid_index ?ns idx \<longrightarrow>
             to_block (block_slice starts split_sizes) idx =
               map (\<lambda>i. idx ! i - nat (starts ! i)) [0..<length split_sizes]
               @ drop (length split_sizes) idx)
      \<and> ((\<forall>i<length split_sizes. int (?ns ! i) mod split_sizes ! i = 0) \<longrightarrow>
             tensor_size (getitem t (block_slice starts split_sizes)) =
               map nat split_sizes @ drop (length split_sizes) ?ns)"
    if s: "starts \<in> set ?P" for starts
  proof -
    from length_starts [OF s] assms(1) have len: "length starts = length split_sizes"
      by simp
    have vlen: "length split_sizes \<le> length idx" if "valid_index ?ns idx" for idx
      using that assms(1) by (auto simp: valid_index_def dest: list_all2_lengthD)
    have inb: "in_block ?ns (block_slice starts split_sizes) idx =
             (valid_index ?ns idx
              \<and> (\<forall>i<length split_sizes.
                    starts ! i \<le> int (idx ! i)
                    \<and> int (idx ! i) < starts ! i + split_sizes ! i))" for idx
      using in_slices_pointwise [OF len vlen, of idx] by (auto simp: in_block_def)
    have tob: "to_block (block_slice starts split_sizes) idx =
               map (\<lambda>i. idx ! i - nat (starts ! i)) [0..<length split_sizes]
               @ drop (length split_sizes) idx" if "valid_index ?ns idx" for idx
      by (rule to_block_pointwise [OF len vlen [OF that]])
    have shape: "tensor_size (getitem t (block_slice starts split_sizes)) =
               map nat split_sizes @ drop (length split_sizes) ?ns"
      if dv: "\<forall>i<length split_sizes. int (?ns ! i) mod split_sizes ! i = 0"
    proof -
      from dv div_iff have d: "\<forall>(a, b) \<in> set ?ps. a mod b = 0" by simp
      with product_member_positive [OF s]
      have pos: "\<forall>(a, b) \<in> set ?ps. 0 < b \<and> a mod b = 0" by auto
      from assms(1) have "length split_sizes \<le> length ?ns" by simp
      from block_size_inside [OF len this blocks_inside [OF pos s]] show ?thesis
        by (simp add: getitem_def)
    qed
    from len inb tob shape show ?thesis by blast
  qed
  from c1 c2 c3 c4 c5 show ?thesis by blast
qed

theorem fewer_split_sizes_than_dimensions_witness:
  "snd (snd (block_orthogonal_tensor number_block (zeros [4, 6, 5]) [2, 3] () 1)) = None
   \<and> fst (snd (block_orthogonal_tensor number_block (zeros [4, 6, 5]) [2, 3] () 1)) = 5
   \<and> tensor_size (fst (block_orthogonal_tensor number_block (zeros [4, 6, 5]) [2, 3] () 1))
        = [4, 6, 5]
   \<and> elems (fst (block_orthogonal_tensor number_block (zeros [4, 6, 5]) [2, 3] () 1))
        [0, 0, 0] = 100
   \<and> elems (fst (block_orthogonal_tensor number_block (zeros [4, 6, 5]) [2, 3] () 1))
        [1, 4, 2] = 204
   \<and> elems (fst (block_orthogonal_tensor number_block (zeros [4, 6, 5]) [2, 3] () 1))
        [3, 5, 0] = 403
   \<and> elems (fst (block_orthogonal_tensor number_block (zeros [4, 6, 5]) [2, 3] () 1))
        [3, 5, 4] = 407
   \<and> itertools_product (indexes (map int (tensor_size (zeros [4, 6, 5]))) [2, 3])
        = [[0, 0], [0, 3], [2, 0], [2, 3]]
   \<and> in_block (tensor_size (zeros [4, 6, 5])) (block_slice [2, 3] [2, 3]) [3, 5, 4]
   \<and> tensor_size (getitem (zeros [4, 6, 5]) (block_slice [2, 3] [2, 3])) = [2, 3, 5]"
proof -
  have l: "length [2, 3 :: int] < length (tensor_size (zeros [4, 6, 5]))"
    by (simp add: zeros_def)
  have r: "block_orthogonal_tensor number_block (zeros [4, 6, 5]) [2, 3] () 1 =
      (fst (block_orthogonal_tensor number_block (zeros [4, 6, 5]) [2, 3] () 1),
       fst (snd (block_orthogonal_tensor number_block (zeros [4, 6, 5]) [2, 3] () 1)),
       snd (snd (block_orthogonal_tensor number_block (zeros [4, 6, 5]) [2, 3] () 1)))"
    by simp
  have z: "0 \<notin> set [2, 3 :: int]" by simp
  have d: "\<forall>i<length [2, 3 :: int].
             int (tensor_size (zeros [4, 6, 5]) ! i) mod [2, 3] ! i = 0"
    by (simp add: zeros_def less_Suc_eq)
  have p: "[2, 3] \<in> set (itertools_product
                          (indexes (map int (tensor_size (zeros [4, 6, 5]))) [2, 3]))"
    by (simp add: zeros_def indexes_def py_range.simps)
  note all = fewer_split_sizes_than_dimensions [where t = "zeros [4, 6, 5]" and split_sizes = "[2, 3]"
      and orthogonal = number_block and gain = "()" and w = 1, OF l r]
  from all z d have size: "tensor_size
        (fst (block_orthogonal_tensor number_block (zeros [4, 6, 5]) [2, 3] () 1))
      = tensor_size (zeros [4, 6, 5])"
    by blast
  from all p d have shape: "tensor_size (getitem (zeros [4, 6, 5]) (block_slice [2, 3] [2, 3]))
      = map nat [2, 3] @ drop (length [2, 3 :: int]) (tensor_size (zeros [4, 6, 5]))"
    by blast
  have run: "snd (snd (block_orthogonal_tensor number_block (zeros [4, 6, 5]) [2, 3] () 1)) = None
   \<and> fst (snd (block_orthogonal_tensor number_block (zeros [4, 6, 5]) [2, 3] () 1)) = 5
   \<and> elems (fst (block_orthogonal_tensor number_block (zeros [4, 6, 5]) [2, 3] () 1))
        [0, 0, 0] = 100
   \<and> elems (fst (block_orthogonal_tensor number_block (zeros [4, 6, 5]) [2, 3] () 1))
        [1, 4, 2] = 204
   \<and> elems (fst (block_orthogonal_tensor number_block (zeros [4, 6, 5]) [2, 3] () 1))
        [3, 5, 0] = 403
   \<and> elems (fst (block_orthogonal_tensor number_block (zeros [4, 6, 5]) [2, 3] () 1))
        [3, 5, 4] = 407"
    by (simp add: block_orthogonal_tensor_def zeros_def py_mod_def any_def indexes_def
        py_range.simps number_block_def setitem_def getitem_def block_slice_def in_block_def
        valid_index_def)
  have blocks: "itertools_product (indexes (map int (tensor_size (zeros [4, 6, 5]))) [2, 3])
        = [[0, 0], [0, 3], [2, 0], [2, 3]]
      \<and> in_block (tensor_size (zeros [4, 6, 5])) (block_slice [2, 3] [2, 3]) [3, 5, 4]"
    by (simp add: zeros_def indexes_def py_range.simps block_slice_def in_block_def
        valid_index_def)
  from size have size': "tensor_size
        (fst (block_orthogonal_tensor number_block (zeros [4, 6, 5]) [2, 3] () 1)) = [4, 6, 5]"
    by (simp add: zeros_def)
  from shape have shape': "tensor_size (getitem (zeros [4, 6, 5]) (block_slice [2, 3] [2, 3]))
      = [2, 3, 5]"
    by (simp add: zeros_def)
  from run blocks size' shape' show ?thesis by blast
qed

section \<open>Properties of the registry\<close>

text \<open>
  Claim C8. The registry has exactly the twelve keys listed, each once, and the object
  that the class registered under a key constructs from keyword arguments, when called
  on a tensor, calls that key's routine with the tensor and those keyword arguments.
\<close>

theorem registry_keys_and_forwarding:
  "map (\<lambda>(key, cls). (key, Init_call call (cls kw) tensor w)) registry =
     [(''normal'', call torch_normal tensor kw w),
      (''uniform'', call torch_uniform tensor kw w),
      (''orthogonal'', call torch_orthogonal tensor kw w),
      (''constant'', call torch_constant tensor kw w),
      (''dirac'', call torch_dirac tensor kw w),
      (''xavier_normal'', call torch_xavier_normal tensor kw w),
      (''xavier_uniform'', call torch_xavier_uniform tensor kw w),
      (''kaiming_normal'', call torch_kaiming_normal tensor kw w),
      (''kaiming_uniform'', call torch_kaiming_uniform tensor kw w),
      (''sparse'', call torch_sparse tensor kw w),
      (''eye'', call torch_eye tensor kw w),
      (''block_orthogonal'', call block_orthogonal_routine tensor kw w)]
   \<and> distinct (map fst (registry :: (string \<times> ('kw \<Rightarrow> 'kw Init)) list))
   \<and> length (registry :: (string \<times> ('kw \<Rightarrow> 'kw Init)) list) = 12"
  by (simp add: registry_def Init_call_def initializer_wrapper_def)

lemma by_name_unregistered:
  "name \<notin> fst ` set reg \<Longrightarrow>
   by_name reg name
     = Inl (ConfigurationError (name @ '' is not a registered name for Initializer''))"
proof -
  assume "name \<notin> fst ` set reg"
  then have "map_of reg name = None" by (simp add: map_of_eq_None_iff)
  then show ?thesis by (simp add: by_name_def)
qed

text \<open>
  Claim C6. Whatever the registry holds, constructing an initializer from a name that is
  not registered fails with a \<^verbatim>\<open>ConfigurationError\<close> and yields no object, both when
  the name is given as a bare string and when it is the \<^verbatim>\<open>type\<close> field of a
  structured specification.
\<close>

theorem unregistered_name_is_configuration_error:
  assumes "name \<notin> fst ` set reg"
    and "map_of d ''type'' = Some (StrValue name)"
  shows "(\<exists>message. Initializer_from_params reg (Str name)
                      = Inl (ConfigurationError message))
     \<and> (\<exists>message. Initializer_from_params reg (Params d)
                      = Inl (ConfigurationError message))"
proof -
  from assms(1) have "name \<notin> set (list_available reg)"
    by (simp add: list_available_def)
  with assms(2) have "\<exists>message. pop_choice d ''type'' (list_available reg)
                        = Inl (ConfigurationError message)"
    by (simp add: pop_choice_def)
  then have "\<exists>message. Initializer_from_params reg (Params d)
                      = Inl (ConfigurationError message)"
    by auto
  with by_name_unregistered [OF assms(1)] show ?thesis by simp
qed

theorem unregistered_name_is_configuration_error_witness:
  "Initializer_from_params (registry :: (string \<times> (unit dict \<Rightarrow> unit dict Init)) list)
       (Str ''not_a_real_name'')
     = Inl (ConfigurationError ''not_a_real_name is not a registered name for Initializer'')
   \<and> Initializer_from_params (registry :: (string \<times> (unit dict \<Rightarrow> unit dict Init)) list)
       (Params [(''type'', StrValue ''not_a_real_name'')])
     = Inl (ConfigurationError ''not_a_real_name is not one of the choices'')
   \<and> Initializer_from_params (registry :: (string \<times> (unit dict \<Rightarrow> unit dict Init)) list)
       (Params [(''type'', StrValue ''constant''), (''val'', OtherValue ())])
     = Inr \<lparr>init_function = torch_constant, kwargs = [(''val'', OtherValue ())]\<rparr>"
proof -
  have u: "''not_a_real_name''
             \<notin> fst ` set (registry :: (string \<times> (unit dict \<Rightarrow> unit dict Init)) list)"
    by (simp add: registry_def)
  have t: "map_of [(''type'', StrValue ''not_a_real_name'' :: unit param_value)] ''type''
             = Some (StrValue ''not_a_real_name'')"
    by simp
  from u t unregistered_name_is_configuration_error
      [where name = "''not_a_real_name''"
         and reg = "registry :: (string \<times> (unit dict \<Rightarrow> unit dict Init)) list"
         and d = "[(''type'', StrValue ''not_a_real_name'')]"]
  show ?thesis
    by (simp add: registry_def by_name_def pop_choice_def list_available_def
        Init_from_params_def initializer_wrapper_def)
qed

end
